theory Spec2Isabelle
  imports Complex_Main "HOL-Library.Multiset" "HOL-Library.Word"
begin

section \<open>Numbers and errors\<close>

text \<open>
  The program is JavaScript. Where a result does not depend on the rounding of its
  arithmetic, a number is modelled as the real number it stands for: the operation is the
  exact one, \<open>Math.sqrt\<close> is \<^const>\<open>sqrt\<close> and \<open>Math.PI\<close> is \<^const>\<open>pi\<close>. The distances
  of the tour planner and of the polyline simplification, whose comparisons decide ties by
  rounding, are computed in the double-precision arithmetic of the next section. The resource
  tracker is modelled twice: over the reals, and over numbers that include \<open>NaN\<close> and the
  infinities. A thrown exception is the left summand of a result.
\<close>

datatype error =
  CapacityError      \<comment> \<open>\<open>Paint capacity must be a positive number\<close>\<close>
| AreaError          \<comment> \<open>\<open>Area must be a non-negative number\<close>\<close>
| ThresholdError     \<comment> \<open>\<open>Threshold must be between 0 and 1\<close>\<close>
| DimensionError     \<comment> \<open>\<open>Image dimensions must be positive\<close>, \<open>Physical dimensions must be positive\<close>\<close>
| AnchorError        \<comment> \<open>\<open>Top anchors cannot be at the same position\<close>\<close>
| NoSamplesError     \<comment> \<open>\<open>No color samples extracted from image\<close>\<close>
| NoImageDataError   \<comment> \<open>\<open>No image data provided for G-code generation\<close>\<close>
| TypeError          \<comment> \<open>reading a property of \<open>undefined\<close>\<close>
| RangeError         \<comment> \<open>maximum call stack size exceeded\<close>
| NonTermination     \<comment> \<open>a loop that never ends\<close>

text \<open>\<open>Math.round\<close> rounds to the nearest integer, a half towards plus infinity.\<close>

definition js_round :: "real \<Rightarrow> int" where
  "js_round v = \<lfloor>v + 1 / 2\<rfloor>"


section \<open>Double-precision arithmetic\<close>

text \<open>
  The distances of the program, the sums of distances and the projections onto a segment
  are computed in IEEE 754 double precision, and some of its decisions compare two such
  results. For these the model rounds every operation: a double is a real number, and
  \<open>a + b\<close>, \<open>a - b\<close>, \<open>a * b\<close>, \<open>a / b\<close> and \<open>Math.sqrt(a)\<close> of doubles are the rounding
  \<open>fl\<close> of the exact result. \<open>fl\<close> rounds to the nearest number with a significand of 53
  bits, a tie to the even significand; below \<open>2^-1022\<close> the spacing stays at \<open>2^-1074\<close>
  (the subnormal numbers). The largest double is not modelled: the theorems about rounded
  results bound the coordinates, so that no operation overflows. Comparisons are exact.
\<close>

definition round_even :: "real \<Rightarrow> int" where
  "round_even r =
     (let f = \<lfloor>r\<rfloor>; d = r - of_int f
      in if d < 1 / 2 then f else if d > 1 / 2 then f + 1 else if even f then f else f + 1)"

text \<open>The exponent of the unit in the last place of a double near \<open>x\<close>.\<close>

definition ulp_exp :: "real \<Rightarrow> int" where
  "ulp_exp x = max \<lfloor>log 2 \<bar>x\<bar>\<rfloor> (- 1022) - 52"

definition fl :: "real \<Rightarrow> real" where
  "fl x = (if x = 0 then 0
           else of_int (round_even (x / 2 powi ulp_exp x)) * 2 powi ulp_exp x)"
section \<open>Resource tracker (gcode/refillTracker)\<close>

text \<open>The tracker over the reals: every number is finite and no operation is rounded.\<close>

record usage_event =
  ev_area :: real
  ev_thickness :: real
  ev_volume :: real
  ev_remainingAfter :: real

record tracker =
  paintCapacity :: real
  remainingCapacity :: real
  consumedPaint :: real
  refillCount :: nat
  usageHistory :: "usage_event list"

text \<open>The constructor. The time stamp of a usage event and the debug flag are left out.\<close>

definition new_tracker :: tracker where
  "new_tracker = \<lparr>paintCapacity = 0, remainingCapacity = 0, consumedPaint = 0,
     refillCount = 0, usageHistory = []\<rparr>"

definition reset :: "tracker \<Rightarrow> real \<Rightarrow> error + tracker" where
  "reset t cap =
     (if cap \<le> 0 then Inl CapacityError
      else Inr (t\<lparr>paintCapacity := cap, remainingCapacity := cap, consumedPaint := 0,
                  refillCount := 0, usageHistory := []\<rparr>))"

definition needsRefill :: "tracker \<Rightarrow> real \<Rightarrow> error + bool" where
  "needsRefill t threshold =
     (if threshold < 0 \<or> threshold > 1 then Inl ThresholdError
      else Inr (remainingCapacity t \<le> paintCapacity t * threshold))"

text \<open>\<open>addUsage\<close> returns the tracker it has updated and the answer of \<open>needsRefill()\<close>.\<close>

definition addUsage :: "tracker \<Rightarrow> real \<Rightarrow> real \<Rightarrow> error + (bool \<times> tracker)" where
  "addUsage t area thickness =
     (if area < 0 then Inl AreaError
      else
        let volumeMm3 = area * thickness;
            volumeMl = volumeMm3 / 1000;
            t1 = t\<lparr>remainingCapacity := remainingCapacity t - volumeMl,
                   consumedPaint := consumedPaint t + volumeMl\<rparr>;
            t2 = t1\<lparr>usageHistory := usageHistory t1 @
                   [\<lparr>ev_area = area, ev_thickness = thickness, ev_volume = volumeMl,
                     ev_remainingAfter = remainingCapacity t1\<rparr>]\<rparr>
        in (case needsRefill t2 (1 / 10) of
              Inl e \<Rightarrow> Inl e
            | Inr b \<Rightarrow> Inr (b, t2)))"


definition addDotUsage :: "tracker \<Rightarrow> real \<Rightarrow> real \<Rightarrow> error + (bool \<times> tracker)" where
  "addDotUsage t diameter thickness =
     (let radius = diameter / 2; area = pi * radius * radius in addUsage t area thickness)"

definition refill :: "tracker \<Rightarrow> tracker" where
  "refill t = t\<lparr>remainingCapacity := paintCapacity t, refillCount := refillCount t + 1\<rparr>"









section \<open>Resource tracker over JavaScript numbers\<close>

text \<open>
  The guards of the tracker test \<open>typeof x !== 'number'\<close> and one comparison, and both let
  \<open>NaN\<close> and \<open>Infinity\<close> pass. Here a number is a double, plus or minus \<open>Infinity\<close>, or
  \<open>NaN\<close>. A finite result is rounded, and one whose rounding reaches \<open>2^1024\<close> overflows
  to an infinity. The sign of a zero is left out: the tracker divides by the literals 2 and
  1000 only, and no comparison tells the two zeros apart.
\<close>

datatype number = Finite real | PosInf | NegInf | NaN

definition num :: "real \<Rightarrow> number" where
  "num r = (if 2 ^ 1024 \<le> \<bar>fl r\<bar> then (if 0 < r then PosInf else NegInf) else Finite (fl r))"

fun sign_of :: "number \<Rightarrow> real" where
  "sign_of (Finite a) = sgn a"
| "sign_of PosInf = 1"
| "sign_of NegInf = - 1"
| "sign_of NaN = 0"

fun js_neg :: "number \<Rightarrow> number" where
  "js_neg (Finite a) = Finite (- a)"
| "js_neg PosInf = NegInf"
| "js_neg NegInf = PosInf"
| "js_neg NaN = NaN"

fun js_add :: "number \<Rightarrow> number \<Rightarrow> number" where
  "js_add (Finite a) (Finite b) = num (a + b)"
| "js_add NaN y = NaN"
| "js_add x NaN = NaN"
| "js_add PosInf NegInf = NaN"
| "js_add NegInf PosInf = NaN"
| "js_add PosInf y = PosInf"
| "js_add NegInf y = NegInf"
| "js_add x PosInf = PosInf"
| "js_add x NegInf = NegInf"

definition js_sub :: "number \<Rightarrow> number \<Rightarrow> number" where
  "js_sub x y = js_add x (js_neg y)"

text \<open>A product with an infinity is \<open>NaN\<close> when the other factor is 0 or \<open>NaN\<close>.\<close>

fun js_mul :: "number \<Rightarrow> number \<Rightarrow> number" where
  "js_mul (Finite a) (Finite b) = num (a * b)"
| "js_mul x y =
     (if x = NaN \<or> y = NaN \<or> sign_of x * sign_of y = 0 then NaN
      else if 0 < sign_of x * sign_of y then PosInf else NegInf)"

text \<open>The quotient by a positive literal.\<close>

fun js_div_literal :: "number \<Rightarrow> real \<Rightarrow> number" where
  "js_div_literal (Finite a) c = num (a / c)"
| "js_div_literal x c = x"

text \<open>Every comparison with \<open>NaN\<close> is false.\<close>

fun js_le :: "number \<Rightarrow> number \<Rightarrow> bool" where
  "js_le NaN y = False"
| "js_le x NaN = False"
| "js_le NegInf y = True"
| "js_le x PosInf = True"
| "js_le (Finite a) (Finite b) = (a \<le> b)"
| "js_le x y = False"

definition js_lt :: "number \<Rightarrow> number \<Rightarrow> bool" where
  "js_lt x y \<longleftrightarrow> js_le x y \<and> \<not> js_le y x"

text \<open>\<open>Math.max\<close> of two numbers is \<open>NaN\<close> when one of them is.\<close>

definition js_max :: "number \<Rightarrow> number \<Rightarrow> number" where
  "js_max x y = (if x = NaN \<or> y = NaN then NaN else if js_le x y then y else x)"

record usage_event_num =
  evn_area :: number
  evn_thickness :: number
  evn_volume :: number
  evn_remainingAfter :: number

record tracker_num =
  paintCapacity_num :: number
  remainingCapacity_num :: number
  consumedPaint_num :: number
  refillCount_num :: nat
  usageHistory_num :: "usage_event_num list"

definition new_tracker_num :: tracker_num where
  "new_tracker_num = \<lparr>paintCapacity_num = Finite 0, remainingCapacity_num = Finite 0,
     consumedPaint_num = Finite 0, refillCount_num = 0, usageHistory_num = []\<rparr>"

definition reset_num :: "tracker_num \<Rightarrow> number \<Rightarrow> error + tracker_num" where
  "reset_num t cap =
     (if js_le cap (Finite 0) then Inl CapacityError
      else Inr (t\<lparr>paintCapacity_num := cap, remainingCapacity_num := cap,
                  consumedPaint_num := Finite 0, refillCount_num := 0,
                  usageHistory_num := []\<rparr>))"

definition needsRefill_num :: "tracker_num \<Rightarrow> number \<Rightarrow> error + bool" where
  "needsRefill_num t threshold =
     (if js_lt threshold (Finite 0) \<or> js_lt (Finite 1) threshold then Inl ThresholdError
      else Inr (js_le (remainingCapacity_num t) (js_mul (paintCapacity_num t) threshold)))"

definition addUsage_num ::
  "tracker_num \<Rightarrow> number \<Rightarrow> number \<Rightarrow> error + (bool \<times> tracker_num)" where
  "addUsage_num t area thickness =
     (if js_lt area (Finite 0) then Inl AreaError
      else
        let volumeMm3 = js_mul area thickness;
            volumeMl = js_div_literal volumeMm3 1000;
            t1 = t\<lparr>remainingCapacity_num := js_sub (remainingCapacity_num t) volumeMl,
                   consumedPaint_num := js_add (consumedPaint_num t) volumeMl\<rparr>;
            t2 = t1\<lparr>usageHistory_num := usageHistory_num t1 @
                   [\<lparr>evn_area = area, evn_thickness = thickness, evn_volume = volumeMl,
                     evn_remainingAfter = remainingCapacity_num t1\<rparr>]\<rparr>
        in (case needsRefill_num t2 (num (1 / 10)) of
              Inl e \<Rightarrow> Inl e
            | Inr b \<Rightarrow> Inr (b, t2)))"

definition addLineUsage_num ::
  "tracker_num \<Rightarrow> number \<Rightarrow> number \<Rightarrow> number \<Rightarrow> error + (bool \<times> tracker_num)" where
  "addLineUsage_num t len width thickness =
     (let area = js_mul len width in addUsage_num t area thickness)"

definition addDotUsage_num ::
  "tracker_num \<Rightarrow> number \<Rightarrow> number \<Rightarrow> error + (bool \<times> tracker_num)" where
  "addDotUsage_num t diameter thickness =
     (let radius = js_div_literal diameter 2;
          area = js_mul (js_mul (num pi) radius) radius
      in addUsage_num t area thickness)"

definition refill_num :: "tracker_num \<Rightarrow> tracker_num" where
  "refill_num t = t\<lparr>remainingCapacity_num := paintCapacity_num t,
     refillCount_num := refillCount_num t + 1\<rparr>"

definition getRemainingCapacity_num :: "tracker_num \<Rightarrow> number" where
  "getRemainingCapacity_num t = js_max (Finite 0) (remainingCapacity_num t)"

datatype tracker_op_num =
  Reset_num number
| AddUsage_num number number
| AddLineUsage_num number number number
| AddDotUsage_num number number
| Refill_num

fun tracker_step_num :: "tracker_num \<Rightarrow> tracker_op_num \<Rightarrow> error + tracker_num" where
  "tracker_step_num t (Reset_num cap) = reset_num t cap"
| "tracker_step_num t (AddUsage_num area th) = map_sum id snd (addUsage_num t area th)"
| "tracker_step_num t (AddLineUsage_num len w th) =
     map_sum id snd (addLineUsage_num t len w th)"
| "tracker_step_num t (AddDotUsage_num d th) = map_sum id snd (addDotUsage_num t d th)"
| "tracker_step_num t Refill_num = Inr (refill_num t)"

fun tracker_run_num :: "tracker_num \<Rightarrow> tracker_op_num list \<Rightarrow> error + tracker_num" where
  "tracker_run_num t [] = Inr t"
| "tracker_run_num t (x # xs) =
     (case tracker_step_num t x of Inl e \<Rightarrow> Inl e | Inr t' \<Rightarrow> tracker_run_num t' xs)"

text \<open>The literal \<open>1e200\<close>.\<close>

definition huge_diameter :: number where
  "huge_diameter = num (10 ^ 200)"
section \<open>Coordinate transformer (gcode/coordinateTransformer)\<close>

record point =
  px :: real
  py :: real

record anchors =
  topLeft :: point
  topRight :: point
  bottomCenter :: point

text \<open>The trilateration coordinates \<open>{X, Y, Z}\<close>.\<close>

record trilateration =
  tX :: real
  tY :: real
  tZ :: real

text \<open>\<open>Math.round(v * 100) / 100\<close>, the rounding to two decimal places.\<close>

definition round2 :: "real \<Rightarrow> real" where
  "round2 v = real_of_int (js_round (v * 100)) / 100"

definition cartesianToTrilateration :: "real \<Rightarrow> real \<Rightarrow> anchors \<Rightarrow> trilateration" where
  "cartesianToTrilateration x y a =
     (let X = sqrt ((px (topLeft a) - x)\<^sup>2 + (py (topLeft a) - y)\<^sup>2);
          Y = sqrt ((px (topRight a) - x)\<^sup>2 + (py (topRight a) - y)\<^sup>2);
          Z = sqrt ((px (bottomCenter a) - x)\<^sup>2 + (py (bottomCenter a) - y)\<^sup>2)
      in \<lparr>tX = round2 X, tY = round2 Y, tZ = round2 Z\<rparr>)"


definition scaleToPhysical ::
  "real \<Rightarrow> real \<Rightarrow> real \<Rightarrow> real \<Rightarrow> real \<Rightarrow> real \<Rightarrow> error + point" where
  "scaleToPhysical pixelX pixelY imageWidth imageHeight physicalWidth physicalHeight =
     (if imageWidth \<le> 0 \<or> imageHeight \<le> 0 then Inl DimensionError
      else if physicalWidth \<le> 0 \<or> physicalHeight \<le> 0 then Inl DimensionError
      else
        let scaleX = physicalWidth / imageWidth;
            scaleY = physicalHeight / imageHeight;
            x = pixelX * scaleX;
            y = pixelY * scaleY
        in Inr \<lparr>px = round2 x, py = round2 y\<rparr>)"

text \<open>The anchors of the documentation's example, in millimetres.\<close>

definition example_anchors :: anchors where
  "example_anchors = \<lparr>topLeft = \<lparr>px = 0, py = 0\<rparr>, topRight = \<lparr>px = 2000, py = 0\<rparr>,
     bottomCenter = \<lparr>px = 1000, py = 1500\<rparr>\<rparr>"


section \<open>Contour tracer: polyline simplification (algorithms/edgeTracer)\<close>

text \<open>
  \<open>distance\<close> and \<open>perpendicularDistance\<close> in double precision: every subtraction,
  product, sum, quotient and square root is rounded.
\<close>

definition distance :: "point \<Rightarrow> point \<Rightarrow> real" where
  "distance p1 p2 =
     (let dx = fl (px p1 - px p2); dy = fl (py p1 - py p2)
      in fl (sqrt (fl (fl (dx * dx) + fl (dy * dy)))))"

definition perpendicularDistance :: "point \<Rightarrow> point \<Rightarrow> point \<Rightarrow> real" where
  "perpendicularDistance p lineStart lineEnd =
     (let dx = fl (px lineEnd - px lineStart);
          dy = fl (py lineEnd - py lineStart);
          lenSquared = fl (fl (dx * dx) + fl (dy * dy))
      in if lenSquared = 0 then distance p lineStart
         else
           let t = max 0 (min 1
                 (fl (fl (fl (fl (px p - px lineStart) * dx) + fl (fl (py p - py lineStart) * dy))
                        / lenSquared)));
               projection = \<lparr>px = fl (px lineStart + fl (t * dx)),
                              py = fl (py lineStart + fl (t * dy))\<rparr>
           in distance p projection)"

text \<open>
  The loop of \<open>simplifyPolyline\<close> that looks for the point farthest from the segment
  between the first and the last point: \<open>maxDistance\<close> and \<open>maxIndex\<close> start at 0, and
  \<open>i\<close> runs from 1 below \<open>n\<close>.
\<close>

definition segment_distance :: "point list \<Rightarrow> nat \<Rightarrow> real" where
  "segment_distance points i =
     perpendicularDistance (points ! i) (points ! 0) (points ! (length points - 1))"

definition farthest_step :: "point list \<Rightarrow> nat \<Rightarrow> real \<times> nat \<Rightarrow> real \<times> nat" where
  "farthest_step points i acc =
     (let dist = segment_distance points i in if dist > fst acc then (dist, i) else acc)"

definition farthest_upto :: "point list \<Rightarrow> nat \<Rightarrow> real \<times> nat" where
  "farthest_upto points n = fold (farthest_step points) [1..<n] (0, 0)"

definition farthest :: "point list \<Rightarrow> real \<times> nat" where
  "farthest points = farthest_upto points (length points - 1)"

lemma farthest_upto_index: "snd (farthest_upto points n) < max 1 n"
proof (induction n)
  case 0
  then show ?case by (simp add: farthest_upto_def)
next
  case (Suc n)
  show ?case
  proof (cases "n = 0")
    case True
    then show ?thesis by (simp add: farthest_upto_def)
  next
    case False
    then have "farthest_upto points (Suc n) = farthest_step points n (farthest_upto points n)"
      by (simp add: farthest_upto_def)
    then show ?thesis using Suc False by (simp add: farthest_step_def Let_def)
  qed
qed

text \<open>
  \<open>simplifyPolyline\<close>. With a negative tolerance and no point off the segment,
  \<open>maxIndex\<close> is still 0 when \<open>maxDistance > tolerance\<close> holds; the second recursive
  call is then on a copy of the whole array, and the recursion ends with the engine's
  \<open>RangeError\<close> for the exhausted call stack.
\<close>

function simplifyPolyline :: "point list \<Rightarrow> real \<Rightarrow> error + point list" where
  "simplifyPolyline points tolerance =
     (if length points \<le> 2 then Inr points
      else
        let maxDistance = fst (farthest points);
            maxIndex = snd (farthest points)
        in if maxDistance > tolerance then
             (if maxIndex = 0 then Inl RangeError
              else
                case simplifyPolyline (take (maxIndex + 1) points) tolerance of
                  Inl e \<Rightarrow> Inl e
                | Inr left \<Rightarrow>
                    (case simplifyPolyline (drop maxIndex points) tolerance of
                       Inl e \<Rightarrow> Inl e
                     | Inr right \<Rightarrow> Inr (butlast left @ right)))
           else Inr [points ! 0, points ! (length points - 1)])"
  by pat_completeness auto
termination
proof (relation "measure (\<lambda>(points, tolerance). length points)")
  show "wf (measure (\<lambda>(points, tolerance). length points))" by simp
next
  fix points :: "point list" and tolerance x xa
  assume "\<not> length points \<le> 2" "xa = snd (farthest points)" "xa \<noteq> 0"
  moreover have "snd (farthest points) < max 1 (length points - 1)"
    unfolding farthest_def by (rule farthest_upto_index)
  ultimately show "((take (xa + 1) points, tolerance), points, tolerance)
      \<in> measure (\<lambda>(points, tolerance). length points)"
    by simp
next
  fix points :: "point list" and tolerance x xa x2
  assume "\<not> length points \<le> 2" "xa = snd (farthest points)" "xa \<noteq> 0"
  then show "((drop xa points, tolerance), points, tolerance)
      \<in> measure (\<lambda>(points, tolerance). length points)"
    by simp
qed

declare simplifyPolyline.simps [simp del]

text \<open>
  A point lies on the segment from \<open>a\<close> to \<open>b\<close>, in exact arithmetic: it is
  \<open>a + t (b - a)\<close> for some \<open>t\<close> between 0 and 1.
\<close>

definition on_segment :: "point \<Rightarrow> point \<Rightarrow> point \<Rightarrow> bool" where
  "on_segment p a b \<longleftrightarrow>
     (\<exists>t. 0 \<le> t \<and> t \<le> 1 \<and> px p = px a + t * (px b - px a) \<and>
          py p = py a + t * (py b - py a))"

text \<open>
  Every point of the polyline has a computed distance above 0 from the segment between any
  earlier and any later point.
\<close>

definition no_point_between :: "point list \<Rightarrow> bool" where
  "no_point_between ps \<longleftrightarrow>
     (\<forall>i k j. i < k \<and> k < j \<and> j < length ps \<longrightarrow>
        0 < perpendicularDistance (ps ! k) (ps ! i) (ps ! j))"


text \<open>A point of the pixel grid: integer coordinates of magnitude at most \<open>2^20\<close>.\<close>

definition grid_point :: "point \<Rightarrow> bool" where
  "grid_point p \<longleftrightarrow>
     px p \<in> \<int> \<and> py p \<in> \<int> \<and> \<bar>px p\<bar> \<le> 1048576 \<and> \<bar>py p\<bar> \<le> 1048576"

text \<open>
  The coordinates are of a magnitude for which no operation of \<open>distance\<close>, of
  \<open>perpendicularDistance\<close> or of a tour length overflows.
\<close>

definition in_range :: "point list \<Rightarrow> bool" where
  "in_range points \<longleftrightarrow> (\<forall>p\<in>set points. \<bar>px p\<bar> \<le> 2 ^ 500 \<and> \<bar>py p\<bar> \<le> 2 ^ 500)"
section \<open>Edge detector: suppression and hysteresis (algorithms/edgeDetection)\<close>

text \<open>
  The pixels the loops \<open>for y = 1 .. height - 2\<close>, \<open>for x = 1 .. width - 2\<close> visit,
  in their order, as pairs \<open>(x, y)\<close>.
\<close>

definition interior :: "nat \<Rightarrow> nat \<Rightarrow> (nat \<times> nat) list" where
  "interior width height =
     concat (map (\<lambda>y. map (\<lambda>x. (x, y)) [1..<width - 1]) [1..<height - 1])"

text \<open>
  \<open>_nonMaximumSuppression\<close>. The typed arrays are lists of reals, written in place one
  element at a time; \<open>suppressed\<close> starts as \<open>width * height\<close> zeros.
\<close>

definition nms_pixel :: "real list \<Rightarrow> real list \<Rightarrow> nat \<Rightarrow> nat \<times> nat \<Rightarrow> real list \<Rightarrow> real list" where
  "nms_pixel magnitude direction width p suppressed =
     (let x = fst p; y = snd p;
          idx = y * width + x;
          angle = direction ! idx * (180 / pi);
          mag = magnitude ! idx;
          normalizedAngle = (if angle < 0 then angle + 180 else angle);
          (neighbor1, neighbor2) =
            (if (normalizedAngle \<ge> 0 \<and> normalizedAngle < 22.5) \<or>
                (normalizedAngle \<ge> 157.5 \<and> normalizedAngle \<le> 180)
             then (magnitude ! (idx - 1), magnitude ! (idx + 1))
             else if normalizedAngle \<ge> 22.5 \<and> normalizedAngle < 67.5
             then (magnitude ! ((y - 1) * width + (x + 1)), magnitude ! ((y + 1) * width + (x - 1)))
             else if normalizedAngle \<ge> 67.5 \<and> normalizedAngle < 112.5
             then (magnitude ! ((y - 1) * width + x), magnitude ! ((y + 1) * width + x))
             else (magnitude ! ((y - 1) * width + (x - 1)), magnitude ! ((y + 1) * width + (x + 1))))
      in if mag \<ge> neighbor1 \<and> mag \<ge> neighbor2
         then suppressed[idx := mag]
         else suppressed[idx := 0])"

definition nonMaximumSuppression :: "real list \<Rightarrow> real list \<Rightarrow> nat \<Rightarrow> nat \<Rightarrow> real list" where
  "nonMaximumSuppression magnitude direction width height =
     fold (nms_pixel magnitude direction width) (interior width height)
       (replicate (width * height) 0)"

definition STRONG :: nat where "STRONG = 255"

definition WEAK :: nat where "WEAK = 128"

text \<open>
  The double threshold: \<open>edges\<close> has \<open>width * height\<close> elements, and the loop over
  \<open>magnitude\<close> writes those of them that \<open>magnitude\<close> has.
\<close>

definition double_threshold :: "real list \<Rightarrow> nat \<Rightarrow> nat \<Rightarrow> real \<Rightarrow> real \<Rightarrow> nat list" where
  "double_threshold magnitude width height lowThreshold highThreshold =
     map (\<lambda>i. if i < length magnitude then
                  (if magnitude ! i \<ge> highThreshold then STRONG
                   else if magnitude ! i \<ge> lowThreshold then WEAK
                   else 0)
                else 0)
       [0..<width * height]"

text \<open>Edge tracking at one interior pixel: a weak pixel next to a strong one becomes strong.\<close>

definition track_pixel :: "nat \<Rightarrow> nat \<times> nat \<Rightarrow> nat list \<Rightarrow> nat list" where
  "track_pixel width p edges =
     (let x = fst p; y = snd p; idx = y * width + x
      in if edges ! idx = WEAK then
           let hasStrongNeighbor =
                 (edges ! ((y - 1) * width + (x - 1)) = STRONG \<or>
                  edges ! ((y - 1) * width + x) = STRONG \<or>
                  edges ! ((y - 1) * width + (x + 1)) = STRONG \<or>
                  edges ! (y * width + (x - 1)) = STRONG \<or>
                  edges ! (y * width + (x + 1)) = STRONG \<or>
                  edges ! ((y + 1) * width + (x - 1)) = STRONG \<or>
                  edges ! ((y + 1) * width + x) = STRONG \<or>
                  edges ! ((y + 1) * width + (x + 1)) = STRONG)
           in edges[idx := (if hasStrongNeighbor then STRONG else 0)]
         else edges)"

definition hysteresis :: "real list \<Rightarrow> nat \<Rightarrow> nat \<Rightarrow> real \<Rightarrow> real \<Rightarrow> nat list" where
  "hysteresis magnitude width height lowThreshold highThreshold =
     (let edges = double_threshold magnitude width height lowThreshold highThreshold;
          edges = fold (track_pixel width) (interior width height) edges
      in map (\<lambda>v. if v = WEAK then 0 else v) edges)"

text \<open>A pixel of the first or last row or column.\<close>

definition border_pixel :: "nat \<Rightarrow> nat \<Rightarrow> nat \<Rightarrow> nat \<Rightarrow> bool" where
  "border_pixel width height x y \<longleftrightarrow>
     x < width \<and> y < height \<and> (x = 0 \<or> x = width - 1 \<or> y = 0 \<or> y = height - 1)"

section \<open>Point tour planner (algorithms/tspSolver, algorithms/spatialIndex)\<close>

text \<open>
  \<open>points[i]\<close> is \<open>undefined\<close> when \<open>i\<close> is not an index of the array, and reading
  a coordinate of \<open>undefined\<close> throws a \<open>TypeError\<close>.
\<close>

definition point_at :: "point list \<Rightarrow> nat \<Rightarrow> error + point" where
  "point_at points i = (if i < length points then Inr (points ! i) else Inl TypeError)"

text \<open>A loop over a list whose body may throw.\<close>

fun fold_err :: "('a \<Rightarrow> 's \<Rightarrow> error + 's) \<Rightarrow> 'a list \<Rightarrow> 's \<Rightarrow> error + 's" where
  "fold_err f [] s = Inr s"
| "fold_err f (x # xs) s = (case f x s of Inl e \<Rightarrow> Inl e | Inr s' \<Rightarrow> fold_err f xs s')"

definition calculateTourLength :: "nat list \<Rightarrow> point list \<Rightarrow> error + real" where
  "calculateTourLength tour points =
     (if length tour < 2 then Inr 0
      else fold_err
        (\<lambda>i totalLength.
           case point_at points (tour ! i) of
             Inl e \<Rightarrow> Inl e
           | Inr p1 \<Rightarrow>
               (case point_at points (tour ! (i + 1)) of
                  Inl e \<Rightarrow> Inl e
                | Inr p2 \<Rightarrow> Inr (fl (totalLength + distance p1 p2))))
        [0..<length tour - 1] 0)"

subsection \<open>The grid index\<close>

text \<open>
  \<open>_calculateOptimalGridSize\<close>: the bounds start at plus and minus infinity, so that for
  a list that is not empty they are the least and the greatest coordinate.
\<close>

definition calculateOptimalGridSize :: "point list \<Rightarrow> real" where
  "calculateOptimalGridSize points =
     (if length points = 0 then 10
      else
        let minX = fold (\<lambda>p m. min m (px p)) (tl points) (px (hd points));
            minY = fold (\<lambda>p m. min m (py p)) (tl points) (py (hd points));
            maxX = fold (\<lambda>p m. max m (px p)) (tl points) (px (hd points));
            maxY = fold (\<lambda>p m. max m (py p)) (tl points) (py (hd points));
            width = maxX - minX;
            height = maxY - minY;
            area = width * height;
            targetCells = sqrt (real (length points));
            avgDimension = sqrt area
        in max 1 (avgDimension / targetCells))"

text \<open>The cell of a point, which \<open>_getCellKey\<close> prints as the key of the map.\<close>

definition cell_of :: "real \<Rightarrow> point \<Rightarrow> int \<times> int" where
  "cell_of gridSize p = (\<lfloor>px p / gridSize\<rfloor>, \<lfloor>py p / gridSize\<rfloor>)"

text \<open>
  \<open>grid.get(key)\<close> after \<open>_buildIndex\<close>: the indices of the points of that cell, in
  the order in which they were entered.
\<close>

definition grid_get :: "point list \<Rightarrow> real \<Rightarrow> int \<times> int \<Rightarrow> nat list" where
  "grid_get points gridSize key =
     filter (\<lambda>i. cell_of gridSize (points ! i) = key) [0..<length points]"

text \<open>\<open>findInRadius\<close>, each result as its index and its distance.\<close>

definition findInRadius :: "point list \<Rightarrow> real \<Rightarrow> point \<Rightarrow> real \<Rightarrow> (nat \<times> real) list" where
  "findInRadius points gridSize p radius =
     (let cellX = \<lfloor>px p / gridSize\<rfloor>;
          cellY = \<lfloor>py p / gridSize\<rfloor>;
          cellRadius = \<lceil>radius / gridSize\<rceil>
      in concat (map (\<lambda>dx. concat (map (\<lambda>dy.
           map (\<lambda>i. (i, distance p (points ! i)))
             (filter (\<lambda>i. distance p (points ! i) \<le> radius)
                (grid_get points gridSize (cellX + dx, cellY + dy))))
           [- cellRadius..cellRadius])) [- cellRadius..cellRadius]))"

subsection \<open>Nearest neighbour\<close>

text \<open>
  The nearest point found so far is \<open>None\<close> for \<open>nearestIndex = -1\<close> with
  \<open>nearestDistance = Infinity\<close>, and the pair of both otherwise.
\<close>

definition closer :: "nat \<Rightarrow> real \<Rightarrow> (nat \<times> real) option \<Rightarrow> (nat \<times> real) option" where
  "closer i d nearest =
     (case nearest of
        None \<Rightarrow> Some (i, d)
      | Some (nearestIndex, nearestDistance) \<Rightarrow>
          if d < nearestDistance then Some (i, d) else nearest)"

text \<open>The brute-force scan of the points that are not visited.\<close>

definition nearest_brute :: "point list \<Rightarrow> nat list \<Rightarrow> nat \<Rightarrow> error + (nat \<times> real) option" where
  "nearest_brute points visited currentIndex =
     fold_err
       (\<lambda>i nearest.
          if i \<in> set visited then Inr nearest
          else case point_at points currentIndex of
                 Inl e \<Rightarrow> Inl e
               | Inr currentPoint \<Rightarrow> Inr (closer i (distance currentPoint (points ! i)) nearest))
       [0..<length points] None"

text \<open>The candidates of one search radius.\<close>

definition nearest_candidate ::
  "nat list \<Rightarrow> (nat \<times> real) list \<Rightarrow> (nat \<times> real) option \<Rightarrow> (nat \<times> real) option" where
  "nearest_candidate visited candidates nearest =
     fold (\<lambda>candidate nearest.
             if fst candidate \<notin> set visited \<and>
                (case nearest of None \<Rightarrow> True | Some (nearestIndex, nearestDistance) \<Rightarrow>
                   snd candidate < nearestDistance)
             then Some candidate else nearest)
       candidates nearest"

text \<open>
  The search in growing radii, \<open>while (nearestIndex === -1 && searchRadius <= maxRadius)\<close>.
  A radius that is not positive never grows by doubling: where the source would then loop
  for ever, the model ends with \<open>NonTermination\<close>.
\<close>

function nearest_spatial ::
  "point list \<Rightarrow> real \<Rightarrow> real \<Rightarrow> nat list \<Rightarrow> nat \<Rightarrow> real \<Rightarrow> error + (nat \<times> real) option" where
  "nearest_spatial points gridSize maxRadius visited currentIndex searchRadius =
     (if searchRadius \<le> maxRadius then
        (case point_at points currentIndex of
           Inl e \<Rightarrow> Inl e
         | Inr currentPoint \<Rightarrow>
             (case nearest_candidate visited
                     (findInRadius points gridSize currentPoint searchRadius) None of
                Some found \<Rightarrow> Inr (Some found)
              | None \<Rightarrow>
                  if searchRadius \<le> 0 then Inl NonTermination
                  else nearest_spatial points gridSize maxRadius visited currentIndex
                         (searchRadius * 2)))
      else Inr None)"
  by pat_completeness auto
termination
proof (relation "measure (\<lambda>(points, gridSize, maxRadius, visited, currentIndex, searchRadius).
    nat \<lfloor>maxRadius / searchRadius\<rfloor>)")
  show "wf (measure (\<lambda>(points, gridSize, maxRadius, visited, currentIndex, searchRadius).
    nat \<lfloor>maxRadius / searchRadius\<rfloor>))" by simp
next
  fix points :: "point list" and gridSize maxRadius :: real and visited :: "nat list"
    and currentIndex :: nat and searchRadius :: real and b :: point
  assume le: "searchRadius \<le> maxRadius" and pos: "\<not> searchRadius \<le> 0"
  have r: "0 < searchRadius" using pos by simp
  define q where "q = maxRadius / searchRadius"
  have q1: "1 \<le> q" using le r by (simp add: q_def)
  have "\<lfloor>q / 2\<rfloor> < \<lfloor>q\<rfloor>"
  proof -
    have "q / 2 < real_of_int \<lfloor>q\<rfloor>"
    proof (cases "q < 2")
      case True
      then have "\<lfloor>q\<rfloor> = 1" using q1 by linarith
      then show ?thesis using True by simp
    next
      case False
      have "q - 1 < real_of_int \<lfloor>q\<rfloor>" by linarith
      then show ?thesis using False by linarith
    qed
    then show ?thesis by (simp add: floor_less_iff)
  qed
  then have "\<lfloor>maxRadius / searchRadius / 2\<rfloor> < \<lfloor>maxRadius / searchRadius\<rfloor>"
    by (simp only: q_def)
  moreover have "0 < \<lfloor>maxRadius / searchRadius\<rfloor>" using q1 by (simp add: q_def)
  moreover have "maxRadius / (searchRadius * 2) = maxRadius / searchRadius / 2" by simp
  ultimately have "nat \<lfloor>maxRadius / (searchRadius * 2)\<rfloor> < nat \<lfloor>maxRadius / searchRadius\<rfloor>"
    by (simp only: zless_nat_conj)
  then show "((points, gridSize, maxRadius, visited, currentIndex, searchRadius * 2),
      points, gridSize, maxRadius, visited, currentIndex, searchRadius)
    \<in> measure (\<lambda>(points, gridSize, maxRadius, visited, currentIndex, searchRadius).
        nat \<lfloor>maxRadius / searchRadius\<rfloor>)"
    by simp
qed

declare nearest_spatial.simps [simp del]

text \<open>
  The largest search radius: \<open>Math.max(Math.abs(points.reduce((max, p) => Math.max(max, p.x), 0)),
  Math.abs(points.reduce((max, p) => Math.max(max, p.y), 0))) * 2\<close>.
\<close>

definition maxSearchRadius :: "point list \<Rightarrow> real" where
  "maxSearchRadius points =
     max \<bar>fold (\<lambda>p m. max m (px p)) points 0\<bar> \<bar>fold (\<lambda>p m. max m (py p)) points 0\<bar> * 2"

text \<open>One search for the nearest point that is not visited; the index is used above 1000 points.\<close>

definition find_nearest :: "point list \<Rightarrow> nat list \<Rightarrow> nat \<Rightarrow> error + (nat \<times> real) option" where
  "find_nearest points visited currentIndex =
     (let useSpatialIndex = length points > 1000
      in if useSpatialIndex then
           nearest_spatial points (calculateOptimalGridSize points) (maxSearchRadius points)
             visited currentIndex (calculateOptimalGridSize points)
         else nearest_brute points visited currentIndex)"

lemma closer_cases: "closer i d nearest = Some (i, d) \<or> closer i d nearest = nearest"
  by (simp add: closer_def split: option.splits)

lemma brute_fold_unvisited:
  "fold_err
     (\<lambda>i nearest.
        if i \<in> set visited then Inr nearest
        else case point_at points currentIndex of
               Inl e \<Rightarrow> Inl e
             | Inr currentPoint \<Rightarrow> Inr (closer i (distance currentPoint (points ! i)) nearest))
     is acc = Inr (Some (k, d)) \<Longrightarrow>
   (acc = Some (k, d) \<or> (k \<in> set is \<and> k \<notin> set visited))"
proof (induction "is" arbitrary: acc)
  case Nil
  then show ?case by simp
next
  case (Cons i "is")
  show ?case
  proof (cases "i \<in> set visited")
    case True
    then show ?thesis using Cons by auto
  next
    case False
    then obtain cp where cp: "point_at points currentIndex = Inr cp"
      using Cons.prems by (cases "point_at points currentIndex") auto
    let ?acc = "closer i (distance cp (points ! i)) acc"
    from Cons.prems False cp have "fold_err
     (\<lambda>i nearest.
        if i \<in> set visited then Inr nearest
        else case point_at points currentIndex of
               Inl e \<Rightarrow> Inl e
             | Inr currentPoint \<Rightarrow> Inr (closer i (distance currentPoint (points ! i)) nearest))
     is ?acc = Inr (Some (k, d))" by simp
    from Cons.IH[OF this] have "?acc = Some (k, d) \<or> (k \<in> set is \<and> k \<notin> set visited)" .
    then show ?thesis using closer_cases[of i "distance cp (points ! i)" acc] False by auto
  qed
qed

lemma nearest_brute_unvisited:
  "nearest_brute points visited currentIndex = Inr (Some (k, d)) \<Longrightarrow>
   k \<notin> set visited \<and> k < length points"
  unfolding nearest_brute_def by (drule brute_fold_unvisited) auto

lemma nearest_candidate_unvisited:
  "nearest_candidate visited candidates acc = Some c \<Longrightarrow>
   acc = Some c \<or> (c \<in> set candidates \<and> fst c \<notin> set visited)"
  unfolding nearest_candidate_def
proof (induction candidates arbitrary: acc)
  case Nil
  then show ?case by simp
next
  case (Cons a candidates)
  from Cons.IH[OF Cons.prems[simplified]] show ?case by (auto split: if_splits)
qed

lemma findInRadius_index:
  "c \<in> set (findInRadius points gridSize p radius) \<Longrightarrow> fst c < length points"
  by (auto simp: findInRadius_def grid_get_def Let_def)

lemma nearest_spatial_unvisited:
  "nearest_spatial points gridSize maxRadius visited currentIndex searchRadius = Inr (Some (k, d))
   \<Longrightarrow> k \<notin> set visited \<and> k < length points"
proof (induction points gridSize maxRadius visited currentIndex searchRadius
    rule: nearest_spatial.induct)
  case (1 points gridSize maxRadius visited currentIndex searchRadius)
  from "1.prems" have le: "searchRadius \<le> maxRadius"
    by (subst (asm) nearest_spatial.simps) (auto split: if_splits)
  from "1.prems" le obtain cp where cp: "point_at points currentIndex = Inr cp"
    by (subst (asm) nearest_spatial.simps) (cases "point_at points currentIndex", auto)
  show ?case
  proof (cases "nearest_candidate visited (findInRadius points gridSize cp searchRadius) None")
    case None
    with "1.prems" le cp have pos: "\<not> searchRadius \<le> 0"
      and rec: "nearest_spatial points gridSize maxRadius visited currentIndex (searchRadius * 2)
        = Inr (Some (k, d))"
      by (subst (asm) nearest_spatial.simps, auto split: if_splits)+
    from "1.IH"[OF le cp None pos rec] show ?thesis .
  next
    case (Some c)
    with "1.prems" le cp have "c = (k, d)"
      by (subst (asm) nearest_spatial.simps) auto
    with nearest_candidate_unvisited[OF Some] findInRadius_index[of c points gridSize cp searchRadius]
    show ?thesis by auto
  qed
qed

lemma find_nearest_unvisited:
  "find_nearest points visited currentIndex = Inr (Some (k, d)) \<Longrightarrow>
   k \<notin> set visited \<and> k < length points"
  unfolding find_nearest_def Let_def
  by (auto split: if_splits dest: nearest_spatial_unvisited nearest_brute_unvisited)

text \<open>
  The loop \<open>while (visited.size < points.length)\<close> of \<open>nearestNeighbor\<close>. The set
  \<open>visited\<close> holds the entries of \<open>tour\<close>.
\<close>

function nn_loop :: "point list \<Rightarrow> nat list \<Rightarrow> nat \<Rightarrow> error + nat list" where
  "nn_loop points tour currentIndex =
     (if card (set tour) < length points then
        (case find_nearest points tour currentIndex of
           Inl e \<Rightarrow> Inl e
         | Inr None \<Rightarrow> Inr tour
         | Inr (Some (nearestIndex, nearestDistance)) \<Rightarrow>
             nn_loop points (tour @ [nearestIndex]) nearestIndex)
      else Inr tour)"
  by pat_completeness auto
termination
proof (relation "measure (\<lambda>(points, tour, currentIndex). length points - card (set tour))")
  show "wf (measure (\<lambda>(points, tour, currentIndex). length points - card (set tour)))" by simp
next
  fix points :: "point list" and tour :: "nat list" and currentIndex :: nat
    and b :: "(nat \<times> real) option" and a :: "nat \<times> real" and x y
  assume c: "card (set tour) < length points" and f: "find_nearest points tour currentIndex = Inr b"
    and b: "b = Some a" and a: "(x, y) = a"
  from f b a have "find_nearest points tour currentIndex = Inr (Some (x, y))" by simp
  then have "x \<notin> set tour" by (auto dest: find_nearest_unvisited)
  then have "card (set (tour @ [x])) = Suc (card (set tour))" by simp
  then show "((points, tour @ [x], x), points, tour, currentIndex)
      \<in> measure (\<lambda>(points, tour, currentIndex). length points - card (set tour))"
    using c by simp
qed

declare nn_loop.simps [simp del]

definition nearestNeighbor :: "point list \<Rightarrow> nat \<Rightarrow> error + nat list" where
  "nearestNeighbor points startIndex =
     (if length points = 0 then Inr []
      else if length points = 1 then Inr [0]
      else case nn_loop points [startIndex] startIndex of
             Inl e \<Rightarrow> Inl e
           | Inr tour \<Rightarrow>
               (case calculateTourLength tour points of
                  Inl e \<Rightarrow> Inl e
                | Inr tourLength \<Rightarrow> Inr tour))"

subsection \<open>2-opt\<close>

text \<open>The pairs \<open>(i, j)\<close> of the two nested loops, in their order.\<close>

definition twoOpt_pairs :: "nat \<Rightarrow> (nat \<times> nat) list" where
  "twoOpt_pairs n = concat (map (\<lambda>i. map (\<lambda>j. (i, j)) [i + 1..<n - 1]) [1..<n - 2])"

text \<open>The body of the inner loop, on \<open>bestTour\<close> and \<open>improved\<close>.\<close>

definition twoOpt_swap :: "point list \<Rightarrow> nat \<times> nat \<Rightarrow> nat list \<times> bool \<Rightarrow> error + nat list \<times> bool" where
  "twoOpt_swap points ij st =
     (let i = fst ij; j = snd ij; bestTour = fst st
      in case point_at points (bestTour ! (i - 1)) of
           Inl e \<Rightarrow> Inl e
         | Inr A \<Rightarrow>
        (case point_at points (bestTour ! i) of
           Inl e \<Rightarrow> Inl e
         | Inr B \<Rightarrow>
        (case point_at points (bestTour ! j) of
           Inl e \<Rightarrow> Inl e
         | Inr C \<Rightarrow>
        (case point_at points (bestTour ! (j + 1)) of
           Inl e \<Rightarrow> Inl e
         | Inr D \<Rightarrow>
             let currentDist = fl (distance A B + distance C D);
                 newDist = fl (distance A C + distance B D)
             in if newDist < currentDist then
                  let newTour = take i bestTour @ rev (take (j + 1 - i) (drop i bestTour))
                        @ drop (j + 1) bestTour
                  in (case calculateTourLength newTour points of
                        Inl e \<Rightarrow> Inl e
                      | Inr bestLength \<Rightarrow> Inr (newTour, True))
                else Inr st))))"

text \<open>
  The loop \<open>while (improved && iterations < maxIterations)\<close>, on the number of iterations
  that are left.
\<close>

fun twoOpt_loop :: "point list \<Rightarrow> nat \<Rightarrow> nat \<Rightarrow> nat list \<Rightarrow> error + nat list" where
  "twoOpt_loop points n 0 bestTour = Inr bestTour"
| "twoOpt_loop points n (Suc k) bestTour =
     (case fold_err (twoOpt_swap points) (twoOpt_pairs n) (bestTour, False) of
        Inl e \<Rightarrow> Inl e
      | Inr (tour', improved) \<Rightarrow>
          if improved then twoOpt_loop points n k tour' else Inr tour')"

definition twoOpt :: "nat list \<Rightarrow> point list \<Rightarrow> nat \<Rightarrow> error + nat list" where
  "twoOpt tour points maxIterations =
     (if length tour < 4 then Inr tour
      else case calculateTourLength tour points of
             Inl e \<Rightarrow> Inl e
           | Inr bestLength \<Rightarrow> twoOpt_loop points (length tour) maxIterations tour)"

definition solveTSP :: "point list \<Rightarrow> nat \<Rightarrow> bool \<Rightarrow> nat \<Rightarrow> error + nat list" where
  "solveTSP points startIndex optimize maxIterations =
     (case nearestNeighbor points startIndex of
        Inl e \<Rightarrow> Inl e
      | Inr tour \<Rightarrow>
          if optimize \<and> length tour \<ge> 4 then twoOpt tour points maxIterations else Inr tour)"

text \<open>
  The edge lengths of a path through the given points, one after the other, as
  \<open>distance\<close> computes them, added up exactly.
\<close>

fun path_length :: "point list \<Rightarrow> real" where
  "path_length (a # b # rest) = distance a b + path_length (b # rest)"
| "path_length _ = 0"

text \<open>
  The same edge lengths added up as \<open>calculateTourLength\<close> does it when every index of
  the tour is an index of the array: one after the other onto \<open>totalLength\<close>, every sum
  rounded.
\<close>

fun length_from :: "real \<Rightarrow> point list \<Rightarrow> real" where
  "length_from totalLength (a # b # rest) = length_from (fl (totalLength + distance a b)) (b # rest)"
| "length_from totalLength _ = totalLength"

text \<open>Four points on a diagonal for which the two pairs of edges of a 2-opt swap tie.\<close>

definition tie_points :: "point list" where
  "tie_points = [\<lparr>px = 7, py = 7\<rparr>, \<lparr>px = 9, py = 9\<rparr>, \<lparr>px = 14, py = 14\<rparr>, \<lparr>px = 0, py = 0\<rparr>]"

text \<open>Every entry of the tour is an index of \<open>points\<close>.\<close>

definition valid_tour :: "nat list \<Rightarrow> point list \<Rightarrow> bool" where
  "valid_tour tour points \<longleftrightarrow> list_all (\<lambda>i. i < length points) tour"

text \<open>The tour visits every index \<open>0 .. n - 1\<close> exactly once.\<close>

definition is_permutation :: "nat list \<Rightarrow> nat \<Rightarrow> bool" where
  "is_permutation tour n \<longleftrightarrow> distinct tour \<and> set tour = {0..<n}"

text \<open>
  A layer of 1001 sample points on the 10-pixel grid of the dot mode: the pixel (0,0), and
  1000 pixels of a block that starts at (2000,2000), 32 to the row, in scan order.
\<close>

definition far_corner_points :: "point list" where
  "far_corner_points =
     \<lparr>px = 0, py = 0\<rparr> #
     map (\<lambda>k. \<lparr>px = 2000 + 10 * real (k mod 32), py = 2000 + 10 * real (k div 32)\<rparr>) [0..<1000]"

text \<open>The doubles nearest to the square roots of 8, 50, 98, 162 and 392.\<close>

definition rt8 :: real where "rt8 = 6369051672525773 / 2 ^ 51"
definition rt50 :: real where "rt50 = 7961314590657216 / 2 ^ 50"
definition rt98 :: real where "rt98 = 5572920213460051 / 2 ^ 49"
definition rt162 :: real where "rt162 = 7165183131591494 / 2 ^ 49"
definition rt392 :: real where "rt392 = 5572920213460051 / 2 ^ 48"
section \<open>Colour quantizer (algorithms/kMeans, algorithms/colorUtils)\<close>

text \<open>
  A colour \<open>{r, g, b}\<close>; centroids are means, so the channels are reals. An image is its
  width, its height and the bytes of its \<open>Uint8ClampedArray\<close>, four to the pixel.
\<close>

record color =
  cr :: real
  cg :: real
  cb :: real

record imageData =
  img_width :: nat
  img_height :: nat
  img_data :: "8 word list"

definition rgbDistance :: "color \<Rightarrow> color \<Rightarrow> real" where
  "rgbDistance color1 color2 =
     (let rDiff = cr color1 - cr color2;
          gDiff = cg color1 - cg color2;
          bDiff = cb color1 - cb color2
      in sqrt (rDiff * rDiff + gDiff * gDiff + bDiff * bDiff))"

definition clampRgb :: "color \<Rightarrow> color" where
  "clampRgb c =
     \<lparr>cr = max 0 (min 255 (real_of_int (js_round (cr c)))),
      cg = max 0 (min 255 (real_of_int (js_round (cg c)))),
      cb = max 0 (min 255 (real_of_int (js_round (cb c))))\<rparr>"

text \<open>
  \<open>_extractColorSamples\<close>: \<open>i\<close> runs over the multiples of \<open>4 * step\<close> below the
  length of the data; a pixel whose alpha is 0 is skipped.
\<close>

definition extractColorSamples :: "imageData \<Rightarrow> real \<Rightarrow> color list" where
  "extractColorSamples img sampleRate =
     (let dat = img_data img;
          step = nat (max 1 \<lfloor>sampleRate\<rfloor>)
      in map (\<lambda>i. \<lparr>cr = real (unat (dat ! i)), cg = real (unat (dat ! (i + 1))),
                     cb = real (unat (dat ! (i + 2)))\<rparr>)
           (filter (\<lambda>i. i mod (4 * step) = 0 \<and> dat ! (i + 3) \<noteq> 0) [0..<length dat]))"

text \<open>
  The values of \<open>Math.random()\<close>, one after the other; the functions that draw from
  them return how many they have drawn so far.
\<close>

type_synonym rng = "nat \<Rightarrow> real"

text \<open>The distance to the nearest centroid, \<open>minDist\<close>, from \<open>Infinity\<close> on.\<close>

definition minCentroidDistance :: "color list \<Rightarrow> color \<Rightarrow> real" where
  "minCentroidDistance centroids sample =
     fold (\<lambda>centroid minDist. min minDist (rgbDistance sample centroid)) (tl centroids)
       (rgbDistance sample (hd centroids))"

text \<open>The roulette loop over \<open>j\<close>: the index chosen, if one is.\<close>

fun roulette :: "real list \<Rightarrow> real \<Rightarrow> nat \<Rightarrow> nat option" where
  "roulette [] random j = None"
| "roulette (d # ds) random j =
     (let random' = random - d in if random' \<le> 0 then Some j else roulette ds random' (j + 1))"

definition plusplus_step :: "color list \<Rightarrow> rng \<Rightarrow> color list \<times> nat \<Rightarrow> color list \<times> nat" where
  "plusplus_step samples rand st =
     (let centroids = fst st; drawn = snd st;
          distances = map (\<lambda>sample. let minDist = minCentroidDistance centroids sample
                                    in minDist * minDist) samples;
          totalDistance = fold (\<lambda>d s. s + d) distances 0;
          random = rand drawn * totalDistance
      in (case roulette distances random 0 of
            Some j \<Rightarrow> centroids @ [samples ! j]
          | None \<Rightarrow> centroids,
          drawn + 1))"

definition kMeansPlusPlus :: "color list \<Rightarrow> nat \<Rightarrow> rng \<Rightarrow> nat \<Rightarrow> color list \<times> nat" where
  "kMeansPlusPlus samples k rand drawn =
     (let firstIndex = nat \<lfloor>rand drawn * real (length samples)\<rfloor>;
          centroids = [samples ! firstIndex]
      in fold (\<lambda>i. plusplus_step samples rand) [1..<k] (centroids, drawn + 1))"

text \<open>The cluster of a sample: the first centroid at the least distance.\<close>

definition nearestCluster :: "color list \<Rightarrow> color \<Rightarrow> nat" where
  "nearestCluster centroids sample =
     snd (fold (\<lambda>i (minDist, nearest).
                  let d = rgbDistance sample (centroids ! i)
                  in if (case minDist of None \<Rightarrow> True | Some m \<Rightarrow> d < m) then (Some d, i)
                     else (minDist, nearest))
            [0..<length centroids] (None, 0))"

definition assignToClusters :: "color list \<Rightarrow> color list \<Rightarrow> color list list" where
  "assignToClusters samples centroids =
     map (\<lambda>i. filter (\<lambda>sample. nearestCluster centroids sample = i) samples)
       [0..<length centroids]"

text \<open>\<open>_calculateCentroids\<close>: the mean of a cluster, and three random channels for an empty one.\<close>

definition centroid_of :: "rng \<Rightarrow> color list \<Rightarrow> color list \<times> nat \<Rightarrow> color list \<times> nat" where
  "centroid_of rand cluster st =
     (let centroids = fst st; drawn = snd st
      in if length cluster = 0 then
           (centroids @ [\<lparr>cr = real_of_int \<lfloor>rand drawn * 256\<rfloor>,
                           cg = real_of_int \<lfloor>rand (drawn + 1) * 256\<rfloor>,
                           cb = real_of_int \<lfloor>rand (drawn + 2) * 256\<rfloor>\<rparr>], drawn + 3)
         else
           let sum = fold (\<lambda>c acc. \<lparr>cr = cr acc + cr c, cg = cg acc + cg c, cb = cb acc + cb c\<rparr>)
                       cluster \<lparr>cr = 0, cg = 0, cb = 0\<rparr>
           in (centroids @ [\<lparr>cr = cr sum / real (length cluster),
                              cg = cg sum / real (length cluster),
                              cb = cb sum / real (length cluster)\<rparr>], drawn))"

definition calculateCentroids :: "color list list \<Rightarrow> rng \<Rightarrow> nat \<Rightarrow> color list \<times> nat" where
  "calculateCentroids clusters rand drawn = fold (centroid_of rand) clusters ([], drawn)"

definition checkConvergence :: "color list \<Rightarrow> color list \<Rightarrow> real \<Rightarrow> bool" where
  "checkConvergence oldCentroids newCentroids threshold =
     list_all (\<lambda>i. \<not> rgbDistance (oldCentroids ! i) (newCentroids ! i) > threshold)
       [0..<length oldCentroids]"

text \<open>
  The loop \<open>while (iteration < maxIterations && !hasConverged)\<close>, on the number of
  iterations that are left; it returns the centroids and \<open>iteration\<close>.
\<close>

fun kmeans_iterate ::
  "color list \<Rightarrow> rng \<Rightarrow> nat \<Rightarrow> nat \<Rightarrow> color list \<Rightarrow> nat \<Rightarrow> color list \<times> nat" where
  "kmeans_iterate samples rand 0 iteration centroids drawn = (centroids, iteration)"
| "kmeans_iterate samples rand (Suc left) iteration centroids drawn =
     (let clusters = assignToClusters samples centroids;
          (newCentroids, drawn') = calculateCentroids clusters rand drawn;
          hasConverged = checkConvergence centroids newCentroids 1
      in if hasConverged then (newCentroids, iteration + 1)
         else kmeans_iterate samples rand left (iteration + 1) newCentroids drawn')"

text \<open>
  \<open>findDominantColors\<close>: the palette, and the number of iterations that its
  \<open>CLUSTERING_COMPLETE\<close> event reports.
\<close>

definition findDominantColors ::
  "imageData \<Rightarrow> nat \<Rightarrow> nat \<Rightarrow> real \<Rightarrow> rng \<Rightarrow> error + color list \<times> nat" where
  "findDominantColors img numColors maxIterations sampleRate rand =
     (let samples = extractColorSamples img sampleRate
      in if length samples = 0 then Inl NoSamplesError
         else if length samples \<le> numColors then Inr (take numColors samples, 0)
         else
           let (centroids, drawn) = kMeansPlusPlus samples numColors rand 0;
               (centroids', iteration) = kmeans_iterate samples rand maxIterations 0 centroids drawn
           in Inr (map clampRgb centroids', iteration))"

text \<open>A byte of a channel as a colour channel, and the four bytes of a pixel.\<close>

definition byte_color :: "8 word \<Rightarrow> 8 word \<Rightarrow> 8 word \<Rightarrow> color" where
  "byte_color r g b = \<lparr>cr = real (unat r), cg = real (unat g), cb = real (unat b)\<rparr>"

text \<open>An image of \<open>n\<close> pixels in one row, all of one colour and one alpha.\<close>

definition flat_image :: "nat \<Rightarrow> 8 word \<Rightarrow> 8 word \<Rightarrow> 8 word \<Rightarrow> 8 word \<Rightarrow> imageData" where
  "flat_image n r g b a =
     \<lparr>img_width = n, img_height = 1, img_data = concat (replicate n [r, g, b, a])\<rparr>"


section \<open>G-code builder and generator (gcode/gcodeBuilder, gcode/gcodeGenerator)\<close>

text \<open>
  A line of the command stream. The builder prints a command as a string; the model keeps
  the command and its arguments. A comment, a separator and a comment block are a
  \<open>Comment\<close> with their fixed text (the numbers printed into a comment are left out);
  \<open>Blank\<close> is the empty line. The feed rate of a move is printed rounded, the
  coordinates with two decimals.
\<close>

datatype gcode_line =
  Blank
| Comment string
| G0 real real real "real option"
| G1 real real real "real option"
| M3
| M5
| M6 "real option"
| G4 real
| G28
| G21
| G90
| M84

definition paintDot :: "real \<Rightarrow> real \<Rightarrow> real \<Rightarrow> real \<Rightarrow> real \<Rightarrow> gcode_line list" where
  "paintDot X Y Z dwellTime moveSpeed = [G0 X Y Z (Some moveSpeed), M3, G4 dwellTime, M5]"

subsection \<open>Configuration\<close>

record canvas =
  cv_width :: real
  cv_height :: real
  anchorTopLeft :: "point option"
  anchorTopRight :: "point option"
  anchorBottomLeft :: "point option"
  anchorBottomRight :: "point option"

record robot =
  rb_paintCapacity :: real
  rb_moveSpeed :: real
  rb_paintSpeed :: real
  rb_refillPosition :: point

record pointillism =
  minDotSize :: real
  maxDotSize :: real
  dotDensity :: real

text \<open>
  The configuration of a run in dot mode: \<open>config.paint.paintingMode\<close> is
  \<open>'pointillism'\<close>, and \<open>config.paint.pointillism\<close> is the third field.
\<close>

record config =
  cfg_canvas :: canvas
  cfg_robot :: robot
  cfg_pointillism :: pointillism

record layer =
  ly_color :: color
  ly_imageData :: imageData

text \<open>\<open>a?.x || d\<close>: the default \<open>d\<close> when the anchor is missing or its coordinate is 0.\<close>

definition js_or :: "real option \<Rightarrow> real \<Rightarrow> real" where
  "js_or v d = (case v of None \<Rightarrow> d | Some x \<Rightarrow> if x = 0 then d else x)"

definition createAnchorConfig :: "canvas \<Rightarrow> anchors" where
  "createAnchorConfig c =
     (let bottomCenter =
            \<lparr>px = (js_or (map_option px (anchorBottomLeft c)) 0
                   + js_or (map_option px (anchorBottomRight c)) (cv_width c)) / 2,
             py = js_or (map_option py (anchorBottomLeft c)) (cv_height c)\<rparr>
      in \<lparr>topLeft = \<lparr>px = js_or (map_option px (anchorTopLeft c)) 0 * 10,
                      py = js_or (map_option py (anchorTopLeft c)) 0 * 10\<rparr>,
          topRight = \<lparr>px = js_or (map_option px (anchorTopRight c)) (cv_width c) * 10,
                       py = js_or (map_option py (anchorTopRight c)) 0 * 10\<rparr>,
          bottomCenter = \<lparr>px = px bottomCenter * 10, py = py bottomCenter * 10\<rparr>\<rparr>)"

subsection \<open>Preamble, termination and service sequences\<close>

definition generateHeader :: "config \<Rightarrow> gcode_line list" where
  "generateHeader cfg =
     [Comment ''MURALBOT G-CODE'', Blank, Comment ''=== INITIALIZATION ==='',
      G21, G90, G28, M5, Comment ''Ready to paint'']"

definition generateFooter :: "gcode_line list" where
  "generateFooter =
     [Blank, Comment ''=== END SEQUENCE ==='', M5, G28, M84, Comment ''End of G-Code'']"

definition generateRefillSequence :: "trilateration \<Rightarrow> config \<Rightarrow> anchors \<Rightarrow> gcode_line list" where
  "generateRefillSequence currentPos cfg a =
     (let refillPosition = rb_refillPosition (cfg_robot cfg);
          moveSpeed = rb_moveSpeed (cfg_robot cfg);
          refillCoords = cartesianToTrilateration (px refillPosition * 10) (py refillPosition * 10) a
      in [Comment ''=== REFILL SEQUENCE ==='',
          Comment ''Moving to refill position'',
          G0 (tX refillCoords) (tY refillCoords) (tZ refillCoords) (Some moveSpeed),
          Comment ''Waiting for refill (30 seconds)'',
          G4 30,
          Comment ''Returning to painting'',
          G0 (tX currentPos) (tY currentPos) (tZ currentPos) (Some moveSpeed)])"

definition generateColorChangeSequence :: "config \<Rightarrow> anchors \<Rightarrow> gcode_line list" where
  "generateColorChangeSequence cfg a =
     (let moveSpeed = rb_moveSpeed (cfg_robot cfg);
          refillPosition = rb_refillPosition (cfg_robot cfg);
          changeCoords = cartesianToTrilateration (px refillPosition * 10) (py refillPosition * 10) a
      in [Comment ''=== COLOR CHANGE ==='',
          M6 None,
          Comment ''Moving to change position'',
          G0 (tX changeCoords) (tY changeCoords) (tZ changeCoords) (Some moveSpeed),
          Comment ''Waiting for can change (60 seconds)'',
          G4 60,
          Comment ''Ready to continue''])"

subsection \<open>Sample points\<close>

text \<open>
  \<open>_extractPixelCoordinates\<close>: the pixels whose alpha is above 0, row by row. A byte
  past the end of the data is \<open>undefined\<close>, which is not above 0.
\<close>

definition extractPixelCoordinates :: "imageData \<Rightarrow> (nat \<times> nat) list" where
  "extractPixelCoordinates img =
     (let width = img_width img; height = img_height img; dat = img_data img
      in concat (map (\<lambda>y. concat (map (\<lambda>x.
           let idx = (y * width + x) * 4
           in if idx + 3 < length dat \<and> 0 < dat ! (idx + 3) then [(x, y)] else [])
           [0..<width])) [0..<height]))"

text \<open>
  \<open>_downsamplePixels\<close>: the first pixel of every grid cell, in the order in which the
  cells are met (the insertion order of the \<open>Map\<close>). With a density of 0 the spacing is
  \<open>Infinity\<close> and with a negative one it is \<open>NaN\<close>: all pixels then have one key.
\<close>

definition downsamplePixels :: "(nat \<times> nat) list \<Rightarrow> nat \<Rightarrow> nat \<Rightarrow> real \<Rightarrow> (nat \<times> nat) list" where
  "downsamplePixels pixels imageWidth imageHeight density =
     (let key = (if density \<le> 0 then (\<lambda>pixel. (0, 0))
                 else
                   let spacing = nat (max 1 \<lfloor>sqrt (10000 / density)\<rfloor>)
                   in (\<lambda>pixel. (fst pixel div spacing, snd pixel div spacing)));
          grid = fold (\<lambda>pixel grid.
                    if key pixel \<in> set (map fst grid) then grid else grid @ [(key pixel, pixel)])
                   pixels []
      in map snd grid)"

definition pixel_point :: "nat \<times> nat \<Rightarrow> point" where
  "pixel_point pixel = \<lparr>px = real (fst pixel), py = real (snd pixel)\<rparr>"

subsection \<open>The generator\<close>

text \<open>
  What a run of the generator changes: its field \<open>_currentPosition\<close> (\<open>null\<close> in a new
  generator), the refill tracker, and how many values of \<open>Math.random()\<close> are drawn.
\<close>

record gen_state =
  gs_position :: "(nat \<times> nat) option"
  gs_tracker :: tracker
  gs_drawn :: nat

definition paintSingleDot ::
  "nat \<times> nat \<Rightarrow> nat \<Rightarrow> nat \<Rightarrow> config \<Rightarrow> anchors \<Rightarrow> real \<Rightarrow> real \<Rightarrow> rng \<Rightarrow> real \<Rightarrow> real \<Rightarrow> real \<Rightarrow> real \<Rightarrow>
   gcode_line list \<times> gen_state \<Rightarrow> error + gcode_line list \<times> gen_state" where
  "paintSingleDot pixel imageWidth imageHeight cfg a canvasWidthMm canvasHeightMm rand
       minDot maxDot moveSpeed dwellTime ls =
     (let lines = fst ls; st = snd ls
      in case scaleToPhysical (real (fst pixel)) (real (snd pixel)) (real imageWidth)
                (real imageHeight) canvasWidthMm canvasHeightMm of
           Inl e \<Rightarrow> Inl e
         | Inr physical \<Rightarrow>
             let coords = cartesianToTrilateration (px physical) (py physical) a;
                 dotSize = minDot + rand (gs_drawn st) * (maxDot - minDot)
             in (case addDotUsage (gs_tracker st) dotSize (1 / 10) of
                   Inl e \<Rightarrow> Inl e
                 | Inr (needs, t) \<Rightarrow>
                     let lines1 = (if needs
                                   then lines @ [Comment ''Paint low - refill needed'']
                                          @ generateRefillSequence coords cfg a
                                   else lines);
                         t1 = (if needs then refill t else t)
                     in Inr (lines1 @ paintDot (tX coords) (tY coords) (tZ coords) dwellTime moveSpeed,
                             \<lparr>gs_position = Some pixel, gs_tracker = t1,
                              gs_drawn = gs_drawn st + 1\<rparr>)))"

text \<open>
  The search for the start of the tour: the index, in \<open>pixels\<close>, of the pixel closest to
  the current position; \<open>minDist\<close> is \<open>None\<close> while it is \<open>Infinity\<close>.
\<close>

definition closestPixelIndex :: "(nat \<times> nat) list \<Rightarrow> nat \<times> nat \<Rightarrow> nat" where
  "closestPixelIndex pixels cur =
     snd (fold (\<lambda>i best.
            let dx = real (fst (pixels ! i)) - real (fst cur);
                dy = real (snd (pixels ! i)) - real (snd cur);
                d = sqrt (dx * dx + dy * dy)
            in if (case fst best of None \<Rightarrow> True | Some minDist \<Rightarrow> d < minDist)
               then (Some d, i) else best)
          [0..<length pixels] (None, 0))"

definition generatePointillismGcode ::
  "(nat \<times> nat) list \<Rightarrow> nat \<Rightarrow> nat \<Rightarrow> config \<Rightarrow> anchors \<Rightarrow> real \<Rightarrow> real \<Rightarrow> rng \<Rightarrow> gen_state \<Rightarrow>
   error + gcode_line list \<times> gen_state" where
  "generatePointillismGcode pixels imageWidth imageHeight cfg a canvasWidthMm canvasHeightMm rand st =
     (let minDot = minDotSize (cfg_pointillism cfg);
          maxDot = maxDotSize (cfg_pointillism cfg);
          density = dotDensity (cfg_pointillism cfg);
          moveSpeed = rb_moveSpeed (cfg_robot cfg);
          dwellTime = 1 / 10;
          sampledPixels = downsamplePixels pixels imageWidth imageHeight density;
          lines = [Comment ''Painting dots'']
      in if length sampledPixels > 10000 then
           fold_err (\<lambda>pixel. paintSingleDot pixel imageWidth imageHeight cfg a canvasWidthMm
                        canvasHeightMm rand minDot maxDot moveSpeed dwellTime)
             sampledPixels
             (lines @ [Comment ''Using grid order (too many dots for TSP optimization)''], st)
         else
           let startIndex = (case gs_position st of
                               None \<Rightarrow> 0
                             | Some cur \<Rightarrow>
                                 if length pixels > 0 then closestPixelIndex pixels cur else 0)
           in case solveTSP (map pixel_point sampledPixels) startIndex
                     (length sampledPixels < 500) 1000 of
                Inl e \<Rightarrow> Inl e
              | Inr tour \<Rightarrow>
                  fold_err (\<lambda>pixelIndex ls.
                      if pixelIndex < length sampledPixels
                      then paintSingleDot (sampledPixels ! pixelIndex) imageWidth imageHeight cfg a
                             canvasWidthMm canvasHeightMm rand minDot maxDot moveSpeed dwellTime ls
                      else Inl TypeError)
                    tour
                    (lines @ [Comment ''Optimizing dot order using TSP...'',
                              Comment ''Tour optimized''], st))"

definition generateLayerGcode ::
  "layer \<Rightarrow> nat \<Rightarrow> config \<Rightarrow> anchors \<Rightarrow> real \<Rightarrow> real \<Rightarrow> rng \<Rightarrow> gen_state \<Rightarrow>
   error + gcode_line list \<times> gen_state" where
  "generateLayerGcode l layerIndex cfg a canvasWidthMm canvasHeightMm rand st =
     (let img = ly_imageData l;
          pixels = extractPixelCoordinates img;
          imageWidth = img_width img;
          imageHeight = img_height img;
          lines = [Comment ''=== COLOR LAYER ==='', Comment ''Color'', Comment ''Pixels'']
                    @ (if layerIndex > 0 then generateColorChangeSequence cfg a else [])
      in case generatePointillismGcode pixels imageWidth imageHeight cfg a canvasWidthMm
                canvasHeightMm rand st of
           Inl e \<Rightarrow> Inl e
         | Inr (dots, st') \<Rightarrow> Inr (lines @ dots, st'))"

definition generateColorLayersGcode ::
  "layer list \<Rightarrow> config \<Rightarrow> anchors \<Rightarrow> real \<Rightarrow> real \<Rightarrow> rng \<Rightarrow> gen_state \<Rightarrow>
   error + gcode_line list \<times> gen_state" where
  "generateColorLayersGcode colorLayers cfg a canvasWidthMm canvasHeightMm rand st =
     fold_err (\<lambda>i ls.
         case generateLayerGcode (colorLayers ! i) i cfg a canvasWidthMm canvasHeightMm rand (snd ls) of
           Inl e \<Rightarrow> Inl e
         | Inr (layerGcode, st') \<Rightarrow> Inr (fst ls @ layerGcode @ [Blank], st'))
       [0..<length colorLayers] ([], st)"

text \<open>
  \<open>generate(config, colorLayers)\<close> with no edge map, on a generator whose
  \<open>_currentPosition\<close> is \<open>position\<close>. The result is the list of the lines that the code
  joins, and the position the generator is left with.
\<close>

definition generate ::
  "config \<Rightarrow> layer list \<Rightarrow> rng \<Rightarrow> (nat \<times> nat) option \<Rightarrow> error + gcode_line list \<times> (nat \<times> nat) option" where
  "generate cfg colorLayers rand position =
     (let lines = generateHeader cfg @ [Blank]
      in case reset new_tracker (rb_paintCapacity (cfg_robot cfg)) of
           Inl e \<Rightarrow> Inl e
         | Inr refillTracker \<Rightarrow>
             let a = createAnchorConfig (cfg_canvas cfg);
                 canvasWidthMm = cv_width (cfg_canvas cfg) * 10;
                 canvasHeightMm = cv_height (cfg_canvas cfg) * 10
             in if length colorLayers > 0 then
                  (case generateColorLayersGcode colorLayers cfg a canvasWidthMm canvasHeightMm rand
                          \<lparr>gs_position = position, gs_tracker = refillTracker, gs_drawn = 0\<rparr> of
                     Inl e \<Rightarrow> Inl e
                   | Inr (layerGcode, st) \<Rightarrow>
                       Inr (lines @ layerGcode @ [Blank] @ generateFooter, gs_position st))
                else Inl NoImageDataError)"

text \<open>How often a command occurs in a stream.\<close>

definition count_cmd :: "gcode_line \<Rightarrow> gcode_line list \<Rightarrow> nat" where
  "count_cmd c lines = length (filter (\<lambda>l. l = c) lines)"

text \<open>The sample points of a layer: the pixels that survive the downsampling.\<close>

definition layer_samples :: "config \<Rightarrow> layer \<Rightarrow> (nat \<times> nat) list" where
  "layer_samples cfg l =
     downsamplePixels (extractPixelCoordinates (ly_imageData l)) (img_width (ly_imageData l))
       (img_height (ly_imageData l)) (dotDensity (cfg_pointillism cfg))"

subsection \<open>A picture of two colours\<close>

text \<open>
  An image of one row of \<open>w\<close> white pixels; pixel \<open>x\<close> is opaque when \<open>opaque x\<close> holds,
  and transparent otherwise.
\<close>

definition row_image :: "nat \<Rightarrow> (nat \<Rightarrow> bool) \<Rightarrow> imageData" where
  "row_image w opaque =
     \<lparr>img_width = w, img_height = 1,
      img_data = concat (map (\<lambda>x. [255, 255, 255, if opaque x then 255 else 0]) [0..<w])\<rparr>"

text \<open>
  A picture of 12 by 1 pixels in two colours: the last pixel is in the first layer, the
  eleven pixels before it are in the second one.
\<close>

definition two_layers :: "layer list" where
  "two_layers =
     [\<lparr>ly_color = \<lparr>cr = 200, cg = 30, cb = 30\<rparr>, ly_imageData = row_image 12 (\<lambda>x. x = 11)\<rparr>,
      \<lparr>ly_color = \<lparr>cr = 30, cg = 30, cb = 200\<rparr>, ly_imageData = row_image 12 (\<lambda>x. x < 11)\<rparr>]"

text \<open>
  A canvas of 200 cm by 150 cm with the default anchors (these are \<open>example_anchors\<close>),
  dots of 5 mm at a density of 100 percent.
\<close>

definition dot_config :: config where
  "dot_config =
     \<lparr>cfg_canvas = \<lparr>cv_width = 200, cv_height = 150, anchorTopLeft = None, anchorTopRight = None,
                    anchorBottomLeft = None, anchorBottomRight = None\<rparr>,
      cfg_robot = \<lparr>rb_paintCapacity = 400, rb_moveSpeed = 3000, rb_paintSpeed = 1500,
                   rb_refillPosition = \<lparr>px = 0, py = 0\<rparr>\<rparr>,
      cfg_pointillism = \<lparr>minDotSize = 5, maxDotSize = 5, dotDensity = 100\<rparr>\<rparr>"
section \<open>Properties\<close>

subsection \<open>Rounding to double precision\<close>

lemma floor_log2_iff:
  "0 < x \<Longrightarrow> \<lfloor>log 2 x\<rfloor> = k \<longleftrightarrow> 2 powi k \<le> x \<and> x < 2 powi (k + 1)"
  using floor_log_eq_powr_iff[of x 2 k] powr_real_of_int'[of 2 k] powr_real_of_int'[of 2 "k + 1"]
  by simp

lemma round_even_of_int: "round_even (of_int n) = n"
  by (simp add: round_even_def)

lemma round_even_unique:
  assumes "\<bar>r - of_int m\<bar> < 1 / 2"
  shows "round_even r = m"
proof (cases "of_int m \<le> r")
  case True
  then have "\<lfloor>r\<rfloor> = m" using assms by (intro floor_unique) linarith+
  then show ?thesis using assms True by (simp add: round_even_def Let_def)
next
  case False
  have a: "real_of_int m - 1 / 2 < r" using assms by linarith
  have b: "r < real_of_int m" using False by simp
  have f: "\<lfloor>r\<rfloor> = m - 1"
  proof (rule floor_unique)
    show "of_int (m - 1) \<le> r" using a by simp
    show "r < of_int (m - 1) + 1" using b by simp
  qed
  have "r - of_int (m - 1) > 1 / 2" using a by simp
  then show ?thesis using f by (simp add: round_even_def Let_def)
qed

lemma round_even_error: "\<bar>of_int (round_even r) - r\<bar> \<le> 1 / 2"
proof -
  have b: "of_int \<lfloor>r\<rfloor> \<le> r" "r < of_int \<lfloor>r\<rfloor> + 1" by linarith+
  consider "r - of_int \<lfloor>r\<rfloor> < 1 / 2" | "r - of_int \<lfloor>r\<rfloor> > 1 / 2"
    | "r - of_int \<lfloor>r\<rfloor> = 1 / 2" by linarith
  then show ?thesis
  proof cases
    case 1
    then have "round_even r = \<lfloor>r\<rfloor>" by (simp add: round_even_def)
    then show ?thesis using b 1 by simp
  next
    case 2
    then have "round_even r = \<lfloor>r\<rfloor> + 1" by (simp add: round_even_def)
    then show ?thesis using b 2 by simp
  next
    case 3
    then have "round_even r = \<lfloor>r\<rfloor> \<or> round_even r = \<lfloor>r\<rfloor> + 1"
      by (simp add: round_even_def Let_def)
    then show ?thesis using b 3 by auto
  qed
qed

lemma round_even_mono:
  assumes "r \<le> s"
  shows "round_even r \<le> round_even s"
proof (rule ccontr)
  assume "\<not> round_even r \<le> round_even s"
  then have "round_even s + 1 \<le> round_even r" by simp
  then have g: "of_int (round_even s) + 1 \<le> (of_int (round_even r) :: real)"
    by (metis of_int_1 of_int_add of_int_le_iff)
  have "\<bar>of_int (round_even r) - r\<bar> \<le> 1 / 2" "\<bar>of_int (round_even s) - s\<bar> \<le> 1 / 2"
    by (rule round_even_error)+
  with g assms have "r = s" by linarith
  then show False using \<open>\<not> round_even r \<le> round_even s\<close> by simp
qed

lemma round_even_minus: "round_even (- r) = - round_even r"
proof (cases "r = of_int \<lfloor>r\<rfloor>")
  case True
  then obtain n :: int where "r = of_int n" ..
  then have "round_even (- r) = round_even (of_int (- n))" by simp
  then show ?thesis using \<open>r = of_int n\<close> by (simp only: round_even_of_int)
next
  case False
  have c: "\<lceil>r\<rceil> = \<lfloor>r\<rfloor> + 1" using False by (simp add: ceiling_altdef)
  have f: "\<lfloor>- r\<rfloor> = - \<lfloor>r\<rfloor> - 1" using c by (simp add: floor_minus)
  show ?thesis
    unfolding round_even_def Let_def f
    by (auto simp: algebra_simps)
qed

lemma fl_0: "fl 0 = 0"
  by (simp add: fl_def)

lemma ulp_exp_minus: "ulp_exp (- x) = ulp_exp x"
  by (simp add: ulp_exp_def)

lemma fl_minus: "fl (- x) = - fl x"
  by (simp add: fl_def ulp_exp_minus round_even_minus)

lemma pow2_pos: "0 < (2::real) powi k"
  by simp

lemma fl_nonneg: "0 \<le> x \<Longrightarrow> 0 \<le> fl x"
proof -
  assume x: "0 \<le> x"
  have "0 \<le> x / 2 powi ulp_exp x" using x by simp
  then have "round_even 0 \<le> round_even (x / 2 powi ulp_exp x)" by (rule round_even_mono)
  then have "0 \<le> round_even (x / 2 powi ulp_exp x)"
    using round_even_of_int[of 0] by simp
  then show ?thesis by (simp add: fl_def)
qed


lemma pow2_le: "a \<le> b \<Longrightarrow> (2::real) powi a \<le> 2 powi b"
  by (rule power_int_increasing) simp_all

lemma pow2_split: "(2::real) powi (a + b) = 2 powi a * 2 powi b"
  by (simp add: power_int_add)

lemma pow2_diff: "(2::real) powi (a - b) = 2 powi a / 2 powi b"
  by (simp add: power_int_diff)

text \<open>The exponent of a positive number.\<close>

lemma exponent_bounds:
  assumes "0 < x"
  shows "2 powi \<lfloor>log 2 x\<rfloor> \<le> x" "x < 2 powi (\<lfloor>log 2 x\<rfloor> + 1)"
  using floor_log2_iff[OF assms, of "\<lfloor>log 2 x\<rfloor>"] by simp_all

lemma exponent_mono:
  assumes "0 < x" "x \<le> y"
  shows "\<lfloor>log 2 x\<rfloor> \<le> \<lfloor>log 2 y\<rfloor>"
  using assms by (intro floor_mono) simp

lemma ulp_exp_pos:
  assumes "0 < x"
  shows "ulp_exp x = max \<lfloor>log 2 x\<rfloor> (- 1022) - 52"
  using assms by (simp add: ulp_exp_def)

lemma fl_pos_def:
  assumes "0 < x"
  shows "fl x = of_int (round_even (x / 2 powi ulp_exp x)) * 2 powi ulp_exp x"
  using assms by (simp add: fl_def)

lemma fl_upper:
  assumes "0 < x"
  shows "fl x \<le> 2 powi (ulp_exp x + 53)"
proof -
  let ?e = "ulp_exp x"
  have "x < 2 powi (\<lfloor>log 2 x\<rfloor> + 1)" using assms by (rule exponent_bounds)
  also have "\<dots> \<le> 2 powi (?e + 53)"
    by (rule pow2_le) (simp add: ulp_exp_pos[OF assms])
  finally have "x < 2 powi ?e * 2 powi 53" by (simp add: pow2_split)
  then have "x / 2 powi ?e < 2 powi 53" by (simp add: field_simps)
  then have "x / 2 powi ?e \<le> of_int 9007199254740992" by simp
  then have "round_even (x / 2 powi ?e) \<le> round_even (of_int 9007199254740992)"
    by (rule round_even_mono)
  then have "round_even (x / 2 powi ?e) \<le> 9007199254740992" by (simp only: round_even_of_int)
  then have "real_of_int (round_even (x / 2 powi ?e)) \<le> 2 powi 53" by simp
  then have "fl x \<le> 2 powi 53 * 2 powi ?e"
    unfolding fl_pos_def[OF assms] by (intro mult_right_mono) simp_all
  then show ?thesis by (simp add: pow2_split mult.commute)
qed

lemma fl_lower:
  assumes "0 < x" "- 1022 \<le> \<lfloor>log 2 x\<rfloor>"
  shows "2 powi (ulp_exp x + 52) \<le> fl x"
proof -
  let ?e = "ulp_exp x"
  have e: "?e + 52 = \<lfloor>log 2 x\<rfloor>" using assms by (simp add: ulp_exp_pos)
  have "2 powi (?e + 52) \<le> x" unfolding e using assms(1) by (rule exponent_bounds)
  then have "2 powi ?e * 2 powi 52 \<le> x" by (simp add: pow2_split)
  then have "2 powi 52 \<le> x / 2 powi ?e" by (simp add: field_simps)
  then have "of_int 4503599627370496 \<le> x / 2 powi ?e" by simp
  then have "round_even (of_int 4503599627370496) \<le> round_even (x / 2 powi ?e)"
    by (rule round_even_mono)
  then have "4503599627370496 \<le> round_even (x / 2 powi ?e)" by (simp only: round_even_of_int)
  then have "2 powi 52 \<le> real_of_int (round_even (x / 2 powi ?e))" by simp
  then have "2 powi 52 * 2 powi ?e \<le> fl x"
    unfolding fl_pos_def[OF assms(1)] by (intro mult_right_mono) simp_all
  then show ?thesis by (simp add: pow2_split mult.commute)
qed

lemma fl_mono_pos:
  assumes "0 < x" "x \<le> y"
  shows "fl x \<le> fl y"
proof -
  have y: "0 < y" using assms by linarith
  have le: "ulp_exp x \<le> ulp_exp y"
    using exponent_mono[OF assms] by (simp add: ulp_exp_pos assms(1) y)
  show ?thesis
  proof (cases "ulp_exp x = ulp_exp y")
    case True
    have "x / 2 powi ulp_exp y \<le> y / 2 powi ulp_exp y"
      using assms(2) by (intro divide_right_mono) simp_all
    then have "round_even (x / 2 powi ulp_exp y) \<le> round_even (y / 2 powi ulp_exp y)"
      by (rule round_even_mono)
    then show ?thesis
      unfolding fl_pos_def[OF assms(1)] fl_pos_def[OF y] True
      by (intro mult_right_mono) simp_all
  next
    case False
    then have lt: "ulp_exp x + 1 \<le> ulp_exp y" using le by simp
    have "- 1022 \<le> \<lfloor>log 2 y\<rfloor>"
      using lt by (simp add: ulp_exp_pos assms(1) y) linarith
    from fl_lower[OF y this] have "2 powi (ulp_exp y + 52) \<le> fl y" .
    moreover have "fl x \<le> 2 powi (ulp_exp x + 53)" using assms(1) by (rule fl_upper)
    moreover have "(2::real) powi (ulp_exp x + 53) \<le> 2 powi (ulp_exp y + 52)"
      using lt by (intro pow2_le) simp
    ultimately show ?thesis by linarith
  qed
qed

lemma fl_mono:
  assumes "x \<le> y"
  shows "fl x \<le> fl y"
proof -
  consider "0 < x" | "x \<le> 0" "0 \<le> y" | "y < 0" by linarith
  then show ?thesis
  proof cases
    case 1
    then show ?thesis using assms by (rule fl_mono_pos)
  next
    case 2
    have "0 \<le> fl (- x)" using 2(1) by (intro fl_nonneg) simp
    then have "fl x \<le> 0" by (simp add: fl_minus)
    moreover have "0 \<le> fl y" using 2(2) by (rule fl_nonneg)
    ultimately show ?thesis by linarith
  next
    case 3
    have "fl (- y) \<le> fl (- x)" using 3 assms by (intro fl_mono_pos) simp_all
    then show ?thesis by (simp add: fl_minus)
  qed
qed

text \<open>A comparison of two rounded values decides the comparison of the exact ones.\<close>

lemma fl_less_imp_less: "fl x < fl y \<Longrightarrow> x < y"
  using fl_mono[of y x] by linarith

text \<open>A number with a significand below \<open>2^53\<close> is a double: it is not rounded.\<close>

lemma fl_exact:
  assumes "\<bar>m\<bar> < 9007199254740992" "- 1074 \<le> k"
  shows "fl (of_int m * 2 powi k) = of_int m * 2 powi k"
proof (cases "m = 0")
  case True
  then show ?thesis by (simp add: fl_0)
next
  case False
  let ?x = "real_of_int m * 2 powi k"
  have x0: "?x \<noteq> 0" using False by simp
  have ax: "\<bar>?x\<bar> = real_of_int \<bar>m\<bar> * 2 powi k" by (simp add: abs_mult)
  have pos: "0 < \<bar>?x\<bar>" using x0 by simp
  have "real_of_int \<bar>m\<bar> < 2 powi 53" using assms(1) by simp
  then have "\<bar>?x\<bar> < 2 powi 53 * 2 powi k" unfolding ax by (intro mult_strict_right_mono) simp_all
  then have up: "\<bar>?x\<bar> < 2 powi (53 + k)" by (simp add: pow2_split)
  have "\<lfloor>log 2 \<bar>?x\<bar>\<rfloor> < 53 + k"
  proof (rule ccontr)
    assume "\<not> \<lfloor>log 2 \<bar>?x\<bar>\<rfloor> < 53 + k"
    then have "(2::real) powi (53 + k) \<le> 2 powi \<lfloor>log 2 \<bar>?x\<bar>\<rfloor>" by (intro pow2_le) simp
    also have "\<dots> \<le> \<bar>?x\<bar>" using pos by (rule exponent_bounds)
    finally show False using up by simp
  qed
  then have e: "ulp_exp ?x \<le> k" using assms(2) by (simp add: ulp_exp_def)
  define U where "U = ulp_exp ?x"
  define n where "n = nat (k - U)"
  have k: "k = U + int n" using e by (simp add: n_def U_def)
  have p: "(2::real) powi k = 2 powi U * 2 ^ n"
    by (subst k) (simp add: pow2_split power_int_def[of _ "int n"])
  have "real_of_int m * (2 powi U * 2 ^ n) / 2 powi U = real_of_int m * 2 ^ n" by simp
  then have q: "?x / 2 powi U = of_int (m * 2 ^ n)" by (simp only: p of_int_mult of_int_power of_int_numeral)
  have "round_even (?x / 2 powi U) = m * 2 ^ n"
    unfolding q by (rule round_even_of_int)
  then have "fl ?x = of_int (m * 2 ^ n) * 2 powi U"
    using x0 by (simp add: fl_def U_def)
  also have "\<dots> = real_of_int m * (2 powi U * 2 ^ n)" by simp
  also have "\<dots> = ?x" by (simp only: p)
  finally show ?thesis .
qed

lemma fl_of_int: "\<bar>m\<bar> < 9007199254740992 \<Longrightarrow> fl (of_int m) = of_int m"
  using fl_exact[of m 0] by simp

text \<open>The rounding of a positive number of the normal range, from its exponent.\<close>

lemma fl_eqI:
  assumes "2 powi e \<le> x" "x < 2 powi (e + 1)" "- 1022 \<le> e"
    and "\<bar>x / 2 powi (e - 52) - of_int m\<bar> < 1 / 2"
  shows "fl x = of_int m * 2 powi (e - 52)"
proof -
  have pos: "0 < x" using assms(1) pow2_pos[of e] by linarith
  have "\<lfloor>log 2 x\<rfloor> = e" using floor_log2_iff[OF pos, of e] assms(1,2) by simp
  then have u: "ulp_exp x = e - 52" using assms(3) pos by (simp add: ulp_exp_pos)
  have "round_even (x / 2 powi (e - 52)) = m" using assms(4) by (rule round_even_unique)
  then show ?thesis using pos by (simp add: fl_def u)
qed

text \<open>The error of a rounding: half a unit in the last place.\<close>

lemma fl_error_ulp: "\<bar>fl x - x\<bar> \<le> 2 powi ulp_exp x / 2"
proof (cases "x = 0")
  case True
  then show ?thesis by (simp add: fl_0)
next
  case False
  let ?q = "(2::real) powi ulp_exp x"
  have "fl x - x = (of_int (round_even (x / ?q)) - x / ?q) * ?q"
    using False by (simp add: fl_def field_simps)
  then have "\<bar>fl x - x\<bar> = \<bar>of_int (round_even (x / ?q)) - x / ?q\<bar> * ?q"
    by (simp add: abs_mult)
  also have "\<dots> \<le> 1 / 2 * ?q"
    by (intro mult_right_mono round_even_error) simp
  finally show ?thesis by simp
qed

lemma fl_error_rel:
  assumes "2 powi (- 1022) \<le> \<bar>x\<bar>"
  shows "\<bar>fl x - x\<bar> \<le> \<bar>x\<bar> / 9007199254740992"
proof -
  have pos: "0 < \<bar>x\<bar>" using assms pow2_pos[of "- 1022"] by linarith
  have "- 1022 \<le> \<lfloor>log 2 \<bar>x\<bar>\<rfloor>"
  proof -
    have "\<lfloor>log 2 (2 powi (- 1022))\<rfloor> \<le> \<lfloor>log 2 \<bar>x\<bar>\<rfloor>"
      using assms by (intro exponent_mono) simp_all
    moreover have "\<lfloor>log 2 ((2::real) powi (- 1022))\<rfloor> = - 1022"
      by (subst floor_log2_iff) (simp_all add: pow2_le)
    ultimately show ?thesis by simp
  qed
  then have u: "ulp_exp x = \<lfloor>log 2 \<bar>x\<bar>\<rfloor> - 52" by (simp add: ulp_exp_def)
  have "\<bar>fl x - x\<bar> \<le> 2 powi ulp_exp x / 2" by (rule fl_error_ulp)
  also have "\<dots> = 2 powi \<lfloor>log 2 \<bar>x\<bar>\<rfloor> / 2 powi 52 / 2" by (simp add: u pow2_diff)
  also have "\<dots> \<le> \<bar>x\<bar> / 2 powi 52 / 2"
    using exponent_bounds(1)[OF pos] by (intro divide_right_mono) simp_all
  finally show ?thesis by simp
qed

lemma fl_eq_roundI:
  assumes "2 powi e \<le> x" "x < 2 powi (e + 1)" "- 1022 \<le> e"
    and "round_even (x / 2 powi (e - 52)) = m"
  shows "fl x = of_int m * 2 powi (e - 52)"
proof -
  have pos: "0 < x" using assms(1) pow2_pos[of e] by linarith
  have "\<lfloor>log 2 x\<rfloor> = e" using floor_log2_iff[OF pos, of e] assms(1,2) by simp
  then have u: "ulp_exp x = e - 52" using assms(3) pos by (simp add: ulp_exp_pos)
  show ?thesis using pos assms(4) by (simp add: fl_def u)
qed

text \<open>The rounded square root, from the squares of the two neighbouring midpoints.\<close>

lemma fl_sqrt_eqI:
  assumes "- 1022 \<le> e" "1 \<le> m"
    and "(2 powi e)\<^sup>2 \<le> x" "x < (2 powi (e + 1))\<^sup>2"
    and "((of_int m - 1 / 2) * 2 powi (e - 52))\<^sup>2 < x"
    and "x < ((of_int m + 1 / 2) * 2 powi (e - 52))\<^sup>2"
  shows "fl (sqrt x) = of_int m * 2 powi (e - 52)"
proof (rule fl_eqI)
  show "- 1022 \<le> e" by fact
  show "2 powi e \<le> sqrt x" using assms(3) by (intro real_le_rsqrt)
  have x0: "0 \<le> x" using assms(3) zero_le_power2[of "(2::real) powi e"] by linarith
  show "sqrt x < 2 powi (e + 1)" using assms(4) x0 by (intro real_less_lsqrt) simp_all
  let ?q = "(2::real) powi (e - 52)"
  have lo: "(of_int m - 1 / 2) * ?q < sqrt x"
    using assms(5) by (intro real_less_rsqrt)
  have "0 \<le> (of_int m + 1 / 2) * ?q" using assms(2) by simp
  then have hi: "sqrt x < (of_int m + 1 / 2) * ?q"
    using assms(6) x0 by (intro real_less_lsqrt) simp_all
  have "of_int m - 1 / 2 < sqrt x / ?q" using lo by (simp add: field_simps)
  moreover have "sqrt x / ?q < of_int m + 1 / 2" using hi by (simp add: field_simps)
  ultimately show "\<bar>sqrt x / ?q - of_int m\<bar> < 1 / 2" by linarith
qed



lemma fl_ge: "fl b = b \<Longrightarrow> b \<le> x \<Longrightarrow> b \<le> fl x"
  using fl_mono[of b x] by simp

lemma fl_le: "fl b = b \<Longrightarrow> x \<le> b \<Longrightarrow> fl x \<le> b"
  using fl_mono[of x b] by simp

lemma fl_abs_le:
  assumes "fl b = b" "\<bar>x\<bar> \<le> b"
  shows "\<bar>fl x\<bar> \<le> b"
proof -
  have "fl x \<le> b" using assms by (intro fl_le) simp_all
  moreover have "fl (- x) \<le> b" using assms by (intro fl_le) simp_all
  ultimately show ?thesis by (simp add: fl_minus abs_le_iff)
qed

lemma fl_numeral:
  "(numeral n :: int) < 9007199254740992 \<Longrightarrow> fl (numeral n) = numeral n"
  using fl_of_int[of "numeral n"] by simp

lemma fl_neg_numeral:
  "(numeral n :: int) < 9007199254740992 \<Longrightarrow> fl (- numeral n) = - numeral n"
  using fl_numeral[of n] by (simp add: fl_minus)

lemma fl_1: "fl 1 = 1"
  using fl_of_int[of 1] by simp

text \<open>The error of a rounding, from a bound on the number.\<close>

lemma fl_error_bound:
  assumes "\<bar>x\<bar> \<le> b" "2 powi (- 1022) \<le> b"
  shows "\<bar>fl x - x\<bar> \<le> b / 9007199254740992"
proof (cases "2 powi (- 1022) \<le> \<bar>x\<bar>")
  case True
  from fl_error_rel[OF this] have "\<bar>fl x - x\<bar> \<le> \<bar>x\<bar> / 9007199254740992" .
  also have "\<dots> \<le> b / 9007199254740992" using assms(1) by (intro divide_right_mono) simp_all
  finally show ?thesis .
next
  case False
  then have small: "\<bar>x\<bar> < 2 powi (- 1022)" by simp
  have b0: "0 \<le> b / 9007199254740992" using assms(1) by simp
  show ?thesis
  proof (cases "x = 0")
    case True
    then show ?thesis using b0 by (simp add: fl_0)
  next
    case nz: False
    then have pos: "0 < \<bar>x\<bar>" by simp
    have "\<lfloor>log 2 \<bar>x\<bar>\<rfloor> < - 1022"
    proof (rule ccontr)
      assume "\<not> \<lfloor>log 2 \<bar>x\<bar>\<rfloor> < - 1022"
      then have "(2::real) powi (- 1022) \<le> 2 powi \<lfloor>log 2 \<bar>x\<bar>\<rfloor>" by (intro pow2_le) simp
      also have "\<dots> \<le> \<bar>x\<bar>" using pos by (rule exponent_bounds)
      finally show False using small by simp
    qed
    then have u: "ulp_exp x = - 1074" by (simp add: ulp_exp_def)
    have "\<bar>fl x - x\<bar> \<le> 2 powi ulp_exp x / 2" by (rule fl_error_ulp)
    also have "\<dots> = 2 powi (- 1022) / 9007199254740992" unfolding u by simp
    also have "\<dots> \<le> b / 9007199254740992"
      using assms(2) by (intro divide_right_mono) simp_all
    finally show ?thesis .
  qed
qed

lemma fl_error_add: "\<bar>fl x - x\<bar> \<le> \<bar>x\<bar> / 9007199254740992 + 2 powi (- 1075)"
proof -
  have "\<bar>fl x - x\<bar> \<le> max \<bar>x\<bar> (2 powi (- 1022)) / 9007199254740992"
    by (rule fl_error_bound) simp_all
  also have "\<dots> \<le> (\<bar>x\<bar> + 2 powi (- 1022)) / 9007199254740992"
    by (intro divide_right_mono) simp_all
  also have "\<dots> = \<bar>x\<bar> / 9007199254740992 + 2 powi (- 1075)"
    by (simp add: add_divide_distrib)
  finally show ?thesis .
qed
subsection \<open>The resource tracker\<close>







lemma fl_pow2: "fl (2 ^ n) = 2 ^ n"
  using fl_exact[of 1 "int n"] by simp

lemma num_finite: "\<bar>fl r\<bar> < 2 ^ 1024 \<Longrightarrow> num r = Finite (fl r)"
  by (simp add: num_def)

lemma num_between:
  assumes "2 ^ m \<le> r" "r \<le> 2 ^ n" "n < 1024"
  shows "\<exists>a. num r = Finite a \<and> 2 ^ m \<le> a \<and> a \<le> 2 ^ n"
proof -
  have lo: "2 ^ m \<le> fl r" using fl_pow2 assms(1) by (rule fl_ge)
  have hi: "fl r \<le> 2 ^ n" using fl_pow2 assms(2) by (rule fl_le)
  have "(2::real) ^ n < 2 ^ 1024" using assms(3) by (intro power_strict_increasing) simp_all
  moreover have "0 \<le> fl r" using lo zero_le_power[of "2::real" m] by linarith
  ultimately have "\<bar>fl r\<bar> < 2 ^ 1024" using hi by linarith
  then show ?thesis using lo hi by (simp add: num_finite)
qed

lemma num_overflow:
  assumes "2 ^ 1024 \<le> r"
  shows "num r = PosInf"
proof -
  have "2 ^ 1024 \<le> fl r" using fl_pow2 assms by (rule fl_ge)
  moreover have "0 < r" using assms zero_less_power[of "2::real" 1024] by linarith
  ultimately show ?thesis by (simp add: num_def)
qed

lemma num_tenth: "\<exists>a. num (1 / 10) = Finite a \<and> 0 \<le> a \<and> a \<le> 1"
proof -
  have "0 \<le> fl (1 / 10)" by (rule fl_nonneg) simp
  moreover have "fl (1 / 10) \<le> 1" using fl_1 by (rule fl_le) simp
  ultimately show ?thesis by (simp add: num_finite)
qed

text \<open>The area of a dot of diameter \<open>1e200\<close> overflows.\<close>

lemma dot_area_overflow:
  "js_mul (js_mul (num pi) (js_div_literal huge_diameter 2)) (js_div_literal huge_diameter 2)
     = PosInf"
proof -
  have "(2::real) ^ 664 \<le> 10 ^ 200" "(10::real) ^ 200 \<le> 2 ^ 665" by simp_all
  from num_between[OF this] obtain d where d: "huge_diameter = Finite d"
    "2 ^ 664 \<le> d" "d \<le> 2 ^ 665" unfolding huge_diameter_def by auto
  have "(2::real) ^ 663 \<le> d / 2" "d / 2 \<le> 2 ^ 664" using d(2,3) by simp_all
  from num_between[OF this] obtain r where r: "num (d / 2) = Finite r"
    "2 ^ 663 \<le> r" "r \<le> 2 ^ 664" by auto
  have "(2::real) ^ 1 \<le> pi" "pi \<le> 2 ^ 2" using pi_ge_two pi_less_4 by simp_all
  from num_between[OF this] obtain c where c: "num pi = Finite c" "2 ^ 1 \<le> c" "c \<le> 2 ^ 2"
    by auto
  have "2 ^ 1 * 2 ^ 663 \<le> c * r" using c(2) r(2) by (intro mult_mono) simp_all
  then have lo: "(2::real) ^ 664 \<le> c * r" by simp
  have "c * r \<le> 2 ^ 2 * 2 ^ 664" using c(2,3) r(2,3) by (intro mult_mono) simp_all
  then have hi: "c * r \<le> 2 ^ 666" by simp
  from num_between[OF lo hi] obtain a where a: "num (c * r) = Finite a" "2 ^ 664 \<le> a"
    by auto
  have "2 ^ 664 * 2 ^ 663 \<le> a * r" using a(2) r(2) by (intro mult_mono) simp_all
  then have "(2::real) ^ 1024 \<le> a * r" by simp
  then have "num (a * r) = PosInf" by (rule num_overflow)
  then show ?thesis by (simp add: d r c a)
qed

lemma reset_NaN:
  "reset_num new_tracker_num NaN
     = Inr (new_tracker_num\<lparr>paintCapacity_num := NaN, remainingCapacity_num := NaN\<rparr>)"
  by (simp add: reset_num_def new_tracker_num_def)

lemma js_add_NaN: "js_add x NaN = NaN"
  by (cases x) simp_all

lemma addUsage_num_NaN:
  assumes "\<not> js_lt area (Finite 0)" "js_mul area thickness = NaN"
  shows "\<exists>t'. map_sum id snd (addUsage_num t area thickness) = Inr t' \<and>
     remainingCapacity_num t' = NaN"
proof -
  obtain a where "num (1 / 10) = Finite a" "0 \<le> a" "a \<le> 1" using num_tenth by auto
  then show ?thesis using assms
    by (auto simp: addUsage_num_def needsRefill_num_def js_lt_def js_sub_def js_add_NaN Let_def)
qed


lemma getRemainingCapacity_num_NaN:
  "remainingCapacity_num t = NaN \<Longrightarrow> getRemainingCapacity_num t = NaN"
  by (simp add: getRemainingCapacity_num_def js_max_def)

text \<open>The getter returns \<open>NaN\<close> or a number that is not negative.\<close>

lemma getRemainingCapacity_num_cases:
  "getRemainingCapacity_num t = NaN \<or> js_le (Finite 0) (getRemainingCapacity_num t)"
  by (cases "remainingCapacity_num t")
    (simp_all add: getRemainingCapacity_num_def js_max_def)

text \<open>
  Claim C10 at three inputs. \<open>reset(NaN)\<close> passes the guard of \<open>reset\<close>, since
  \<open>NaN <= 0\<close> is false, and the amount is \<open>NaN\<close>. After \<open>reset(Infinity)\<close>,
  \<open>addUsage(Infinity, 1)\<close> subtracts \<open>Infinity\<close> from \<open>Infinity\<close>. After \<open>reset(1)\<close>,
  \<open>addDotUsage(1e200, 0)\<close> has finite arguments: the area overflows to \<open>Infinity\<close>, its
  product with the thickness 0 is \<open>NaN\<close>, and so is the amount. Each time
  \<open>getRemainingCapacity()\<close> returns \<open>Math.max(0, NaN)\<close>, which is \<open>NaN\<close> and not a
  non-negative value.
\<close>

theorem getRemainingCapacity_not_a_number:
  "map_sum id getRemainingCapacity_num (tracker_run_num new_tracker_num [Reset_num NaN])
     = Inr NaN \<and>
   map_sum id getRemainingCapacity_num
     (tracker_run_num new_tracker_num [Reset_num PosInf, AddUsage_num PosInf (Finite 1)])
     = Inr NaN \<and>
   map_sum id getRemainingCapacity_num
     (tracker_run_num new_tracker_num
        [Reset_num (Finite 1), AddDotUsage_num huge_diameter (Finite 0)])
     = Inr NaN"
proof (intro conjI)
  show "map_sum id getRemainingCapacity_num (tracker_run_num new_tracker_num [Reset_num NaN])
     = Inr NaN"
    by (simp add: reset_NaN getRemainingCapacity_num_NaN)
next
  have r: "reset_num new_tracker_num PosInf
     = Inr (new_tracker_num\<lparr>paintCapacity_num := PosInf, remainingCapacity_num := PosInf\<rparr>)"
    by (simp add: reset_num_def new_tracker_num_def)
  obtain a where a: "num (1 / 10) = Finite a" "0 \<le> a" "a \<le> 1" using num_tenth by auto
  have "\<exists>t'. map_sum id snd (addUsage_num
      (new_tracker_num\<lparr>paintCapacity_num := PosInf, remainingCapacity_num := PosInf\<rparr>)
      PosInf (Finite 1)) = Inr t' \<and> remainingCapacity_num t' = NaN"
    using a
    by (auto simp: addUsage_num_def needsRefill_num_def js_lt_def js_sub_def Let_def)
  then show "map_sum id getRemainingCapacity_num
     (tracker_run_num new_tracker_num [Reset_num PosInf, AddUsage_num PosInf (Finite 1)])
     = Inr NaN"
    using r by (auto simp: getRemainingCapacity_num_NaN split: sum.splits)
next
  have r: "reset_num new_tracker_num (Finite 1)
     = Inr (new_tracker_num\<lparr>paintCapacity_num := Finite 1, remainingCapacity_num := Finite 1\<rparr>)"
    by (simp add: reset_num_def new_tracker_num_def)
  have "\<exists>t'. map_sum id snd (addUsage_num
      (new_tracker_num\<lparr>paintCapacity_num := Finite 1, remainingCapacity_num := Finite 1\<rparr>)
      PosInf (Finite 0)) = Inr t' \<and> remainingCapacity_num t' = NaN"
    by (rule addUsage_num_NaN) (simp_all add: js_lt_def)
  then show "map_sum id getRemainingCapacity_num
     (tracker_run_num new_tracker_num
        [Reset_num (Finite 1), AddDotUsage_num huge_diameter (Finite 0)])
     = Inr NaN"
    using r
    by (auto simp: addDotUsage_num_def dot_area_overflow Let_def getRemainingCapacity_num_NaN
        split: sum.splits)
qed

subsection \<open>The coordinate transformer\<close>

lemma js_round_sqrt:
  assumes "(real_of_int n - 1 / 2)\<^sup>2 \<le> a" "a < (real_of_int n + 1 / 2)\<^sup>2" "0 < n"
  shows "js_round (sqrt a) = n"
proof -
  have p: "0 \<le> real_of_int n - 1 / 2" using assms(3) by linarith
  have "real_of_int n - 1 / 2 \<le> sqrt a" using assms(1) p by (simp add: real_le_rsqrt)
  moreover have "sqrt a < real_of_int n + 1 / 2"
    using assms(2) p by (intro real_less_lsqrt) auto
  ultimately show ?thesis unfolding js_round_def by linarith
qed

lemma round2_sqrt:
  assumes "(real_of_int n - 1 / 2)\<^sup>2 \<le> a * 10000" "a * 10000 < (real_of_int n + 1 / 2)\<^sup>2" "0 < n"
  shows "round2 (sqrt a) = real_of_int n / 100"
proof -
  have "sqrt a * 100 = sqrt (a * 10000)" by (simp add: real_sqrt_mult)
  then show ?thesis unfolding round2_def using js_round_sqrt[OF assms] by simp
qed



lemma round2_nonneg: "0 \<le> r \<Longrightarrow> 0 \<le> round2 r"
proof -
  assume "0 \<le> r"
  then have "0 \<le> \<lfloor>r * 100 + 1 / 2\<rfloor>" by simp
  then show ?thesis by (simp add: round2_def js_round_def)
qed

lemma forward_example:
  "cartesianToTrilateration 500 300 example_anchors =
     \<lparr>tX = 58310 / 100, tY = 152971 / 100, tZ = 1300\<rparr>"
proof -
  have x: "round2 (sqrt 340000) = 58310 / 100"
    using round2_sqrt[of 58310 340000] by (simp add: power2_eq_square)
  have y: "round2 (sqrt 2340000) = 152971 / 100"
    using round2_sqrt[of 152971 2340000] by (simp add: power2_eq_square)
  have z: "round2 1300 = 1300"
    by (simp add: round2_def js_round_def)
  show ?thesis
    by (simp add: cartesianToTrilateration_def example_anchors_def Let_def x y z)
qed

text \<open>
  Claim C2, as the code computes it. With the anchors (0,0), (2000,0) and (1000,1500), the
  forward transform of the point (500,300) is X = 583.10, Y = 1529.71 and Z = 1300.00:
  the distances to the three anchors, rounded to two decimals.
\<close>

theorem cartesianToTrilateration_example:
  "cartesianToTrilateration 500 300 example_anchors =
     \<lparr>tX = 583.10, tY = 1529.71, tZ = 1300.00\<rparr>"
  using forward_example by simp

text \<open>
  The values Y = 1500.00 and Z = 538.52 of claim C2 are not what the forward transform
  returns: its Y is off by more than 29 mm and its Z by more than 761 mm.
\<close>

theorem cartesianToTrilateration_example_differs:
  "\<bar>tY (cartesianToTrilateration 500 300 example_anchors) - 1500.00\<bar> > 29 \<and>
   \<bar>tZ (cartesianToTrilateration 500 300 example_anchors) - 538.52\<bar> > 761"
  by (simp add: forward_example)






subsection \<open>Polyline simplification\<close>

lemma farthest_upto_Suc:
  "1 \<le> n \<Longrightarrow> farthest_upto ps (Suc n) = farthest_step ps n (farthest_upto ps n)"
  by (simp add: farthest_upto_def)

lemma farthest_upto_inv:
  "0 \<le> fst (farthest_upto ps n) \<and>
   (snd (farthest_upto ps n) = 0 \<longrightarrow> fst (farthest_upto ps n) = 0) \<and>
   (snd (farthest_upto ps n) \<noteq> 0 \<longrightarrow>
      snd (farthest_upto ps n) < n \<and>
      fst (farthest_upto ps n) = segment_distance ps (snd (farthest_upto ps n)) \<and>
      0 < fst (farthest_upto ps n) \<and>
      (\<forall>k. 1 \<le> k \<and> k < snd (farthest_upto ps n) \<longrightarrow>
         segment_distance ps k < fst (farthest_upto ps n))) \<and>
   (\<forall>k. 1 \<le> k \<and> k < n \<longrightarrow> segment_distance ps k \<le> fst (farthest_upto ps n))"
proof (induction n)
  case 0
  then show ?case by (simp add: farthest_upto_def)
next
  case (Suc n)
  show ?case
  proof (cases "n = 0")
    case True
    then show ?thesis by (simp add: farthest_upto_def)
  next
    case False
    then have step: "farthest_upto ps (Suc n) = farthest_step ps n (farthest_upto ps n)"
      by (simp add: farthest_upto_Suc)
    obtain D m where dm: "farthest_upto ps n = (D, m)" by (cases "farthest_upto ps n")
    note IH = Suc.IH[unfolded dm fst_conv snd_conv]
    show ?thesis
    proof (cases "segment_distance ps n > D")
      case True
      then have r: "farthest_upto ps (Suc n) = (segment_distance ps n, n)"
        by (simp add: step dm farthest_step_def)
      have "\<forall>k. 1 \<le> k \<and> k < n \<longrightarrow> segment_distance ps k < segment_distance ps n"
        using IH True by fastforce
      moreover have "\<forall>k. 1 \<le> k \<and> k < Suc n \<longrightarrow> segment_distance ps k \<le> segment_distance ps n"
        using IH True by (metis less_Suc_eq less_eq_real_def order_le_less_trans)
      moreover have "0 < segment_distance ps n" using IH True by linarith
      ultimately show ?thesis unfolding r fst_conv snd_conv using False by simp
    next
      case False
      then have r: "farthest_upto ps (Suc n) = (D, m)"
        by (simp add: step dm farthest_step_def)
      have "\<forall>k. 1 \<le> k \<and> k < Suc n \<longrightarrow> segment_distance ps k \<le> D"
        using IH False by (metis less_Suc_eq not_le_imp_less)
      then show ?thesis unfolding r fst_conv snd_conv using IH by auto
    qed
  qed
qed

lemma farthest_upto_facts:
  assumes "farthest_upto ps n = (D, m)"
  shows "0 \<le> D"
    and "m = 0 \<Longrightarrow> D = 0"
    and "m \<noteq> 0 \<Longrightarrow> m < n"
    and "m \<noteq> 0 \<Longrightarrow> D = segment_distance ps m"
    and "m \<noteq> 0 \<Longrightarrow> 0 < D"
    and "m \<noteq> 0 \<Longrightarrow> 1 \<le> k \<Longrightarrow> k < m \<Longrightarrow> segment_distance ps k < D"
    and "1 \<le> k \<Longrightarrow> k < n \<Longrightarrow> segment_distance ps k \<le> D"
  using farthest_upto_inv[of ps n] unfolding assms fst_conv snd_conv by blast+

lemma farthest_upto_char:
  assumes "1 \<le> m" "m < n" "0 < segment_distance ps m"
    and "\<forall>k. 1 \<le> k \<and> k < m \<longrightarrow> segment_distance ps k < segment_distance ps m"
    and "\<forall>k. m < k \<and> k < n \<longrightarrow> segment_distance ps k \<le> segment_distance ps m"
  shows "farthest_upto ps n = (segment_distance ps m, m)"
proof -
  obtain D m' where dm: "farthest_upto ps n = (D, m')" by (cases "farthest_upto ps n")
  note inv = farthest_upto_facts[OF dm]
  have ge: "segment_distance ps m \<le> D" using inv(7) assms(1,2) by blast
  then have m'0: "m' \<noteq> 0" using inv(2) assms(3) by auto
  then have m': "m' < n" "D = segment_distance ps m'" "1 \<le> m'"
    and lt: "\<forall>k. 1 \<le> k \<and> k < m' \<longrightarrow> segment_distance ps k < D"
    using inv(3,4,6) by auto
  have "\<not> m' < m" using assms(4) m' ge by force
  moreover have "\<not> m < m'"
  proof
    assume a: "m < m'"
    then have "segment_distance ps m < D" using lt assms(1) by simp
    moreover have "D \<le> segment_distance ps m" using assms(5) a m' by simp
    ultimately show False by simp
  qed
  ultimately have e: "m' = m" by simp
  show ?thesis using dm e m'(2) by simp
qed

lemma split_at:
  assumes "1 \<le> m" "m < length ps - 1"
  shows "\<exists>a iL iR b. ps = a # iL @ ps ! m # iR @ [b] \<and> length iL = m - 1"
proof -
  have m: "m < length ps" using assms(2) by simp
  have ps: "ps = take m ps @ ps ! m # drop (Suc m) ps" using m by (rule id_take_nth_drop)
  have "take m ps \<noteq> []" using assms m by auto
  then obtain a iL where t: "take m ps = a # iL" by (cases "take m ps") auto
  have "drop (Suc m) ps \<noteq> []" using assms(2) by simp
  then obtain iR b where d: "drop (Suc m) ps = iR @ [b]"
    by (metis append_butlast_last_id)
  have "length (take m ps) = m" using m by simp
  then have "length iL = m - 1" using t by simp
  moreover have "ps = a # iL @ ps ! m # iR @ [b]" using ps t d by simp
  ultimately show ?thesis by blast
qed

lemma nth_sandwich_last: "(a # xs @ [b]) ! (length (a # xs @ [b]) - 1) = b"
  by (simp add: nth_append)

lemma segment_distance_sandwich:
  "segment_distance (a # xs @ [b]) k = perpendicularDistance ((a # xs @ [b]) ! k) a b"
  unfolding segment_distance_def nth_sandwich_last by simp

lemma farthest_decomposed:
  assumes "0 < perpendicularDistance c a b"
    and "\<forall>x\<in>set xs. perpendicularDistance x a b < perpendicularDistance c a b"
    and "\<forall>x\<in>set ys. perpendicularDistance x a b \<le> perpendicularDistance c a b"
  shows "farthest (a # xs @ c # ys @ [b]) = (perpendicularDistance c a b, length xs + 1)"
proof -
  let ?ps = "a # xs @ c # ys @ [b]"
  have sd: "\<And>k. segment_distance ?ps k = perpendicularDistance (?ps ! k) a b"
    using segment_distance_sandwich[of a "xs @ c # ys" b] by simp
  have c: "?ps ! (length xs + 1) = c" by (simp add: nth_append)
  have lo: "\<forall>k. 1 \<le> k \<and> k < length xs + 1 \<longrightarrow>
      segment_distance ?ps k < segment_distance ?ps (length xs + 1)"
  proof (intro allI impI)
    fix k assume k: "1 \<le> k \<and> k < length xs + 1"
    then have "?ps ! k = xs ! (k - 1)" by (cases k) (auto simp: nth_append)
    moreover have "xs ! (k - 1) \<in> set xs" using k by (intro nth_mem) auto
    ultimately show "segment_distance ?ps k < segment_distance ?ps (length xs + 1)"
      unfolding sd c using assms(2) by simp
  qed
  have hi: "\<forall>k. length xs + 1 < k \<and> k < length ?ps - 1 \<longrightarrow>
      segment_distance ?ps k \<le> segment_distance ?ps (length xs + 1)"
  proof (intro allI impI)
    fix k assume k: "length xs + 1 < k \<and> k < length ?ps - 1"
    then have "?ps ! k = ys ! (k - length xs - 2)"
      by (cases k) (auto simp: nth_append nth_Cons')
    moreover have "ys ! (k - length xs - 2) \<in> set ys" using k by (intro nth_mem) auto
    ultimately show "segment_distance ?ps k \<le> segment_distance ?ps (length xs + 1)"
      unfolding sd c using assms(3) by simp
  qed
  have "farthest_upto ?ps (length ?ps - 1)
      = (segment_distance ?ps (length xs + 1), length xs + 1)"
    by (rule farthest_upto_char[OF _ _ _ lo hi]) (use assms(1) in \<open>simp_all add: sd c\<close>)
  then show ?thesis unfolding farthest_def sd c .
qed

lemma farthest_facts:
  assumes "farthest (a # xs @ c # ys @ [b]) = (D, length xs + 1)"
  shows "D = perpendicularDistance c a b \<and> 0 < D \<and>
     (\<forall>x\<in>set xs. perpendicularDistance x a b < D) \<and>
     (\<forall>x\<in>set ys. perpendicularDistance x a b \<le> D)"
proof -
  let ?ps = "a # xs @ c # ys @ [b]"
  have sd: "\<And>k. segment_distance ?ps k = perpendicularDistance (?ps ! k) a b"
    using segment_distance_sandwich[of a "xs @ c # ys" b] by simp
  have c: "?ps ! (length xs + 1) = c" by (simp add: nth_append)
  have f: "farthest_upto ?ps (length ?ps - 1) = (D, length xs + 1)"
    using assms by (simp add: farthest_def)
  note inv = farthest_upto_facts[OF f]
  have D: "D = perpendicularDistance c a b" "0 < D" using inv(4,5) sd c by auto
  have inv_lo: "\<And>k. 1 \<le> k \<Longrightarrow> k < length xs + 1 \<Longrightarrow> segment_distance ?ps k < D"
    using inv(6) by simp
  have inv_hi: "\<And>k. 1 \<le> k \<Longrightarrow> k < length ?ps - 1 \<Longrightarrow> segment_distance ?ps k \<le> D"
    using inv(7) by simp
  have lo: "\<forall>x\<in>set xs. perpendicularDistance x a b < D"
  proof
    fix x assume "x \<in> set xs"
    then obtain i where i: "i < length xs" "xs ! i = x" by (auto simp: in_set_conv_nth)
    then have "?ps ! (i + 1) = x" by (simp add: nth_append)
    moreover have "segment_distance ?ps (i + 1) < D" using i by (intro inv_lo) auto
    ultimately show "perpendicularDistance x a b < D" by (simp add: sd)
  qed
  have hi: "\<forall>x\<in>set ys. perpendicularDistance x a b \<le> D"
  proof
    fix x assume "x \<in> set ys"
    then obtain i where i: "i < length ys" "ys ! i = x" by (auto simp: in_set_conv_nth)
    then have "?ps ! (length xs + 2 + i) = x" by (simp add: nth_append)
    moreover have "segment_distance ?ps (length xs + 2 + i) \<le> D"
      using i by (intro inv_hi) auto
    ultimately show "perpendicularDistance x a b \<le> D" by (simp add: sd)
  qed
  from D lo hi show ?thesis by blast
qed

lemma simplify_short: "length ps \<le> 2 \<Longrightarrow> simplifyPolyline ps tol = Inr ps"
  by (simp add: simplifyPolyline.simps)

lemma simplify_collapse:
  "2 < length ps \<Longrightarrow> fst (farthest ps) \<le> tol \<Longrightarrow>
   simplifyPolyline ps tol = Inr [ps ! 0, ps ! (length ps - 1)]"
  by (simp add: simplifyPolyline.simps[of ps] Let_def)

lemma simplify_split:
  assumes "farthest (a # xs @ c # ys @ [b]) = (D, length xs + 1)" "tol < D"
    and "simplifyPolyline (a # xs @ [c]) tol = Inr L"
    and "simplifyPolyline (c # ys @ [b]) tol = Inr R"
  shows "simplifyPolyline (a # xs @ c # ys @ [b]) tol = Inr (butlast L @ R)"
proof -
  let ?ps = "a # xs @ c # ys @ [b]"
  have t: "take (length xs + 1 + 1) ?ps = a # xs @ [c]" by simp
  have d: "drop (length xs + 1) ?ps = c # ys @ [b]" by simp
  show ?thesis
    unfolding simplifyPolyline.simps[of ?ps] Let_def assms(1) fst_conv snd_conv t d assms(3,4)
    using assms(2) by simp
qed

lemma simplify_shape_idem:
  assumes "0 \<le> tol"
  shows "\<exists>r. simplifyPolyline ps tol = Inr r \<and> simplifyPolyline r tol = Inr r \<and>
      (\<forall>a mid b. ps = a # mid @ [b] \<longrightarrow> (\<exists>mid'. r = a # mid' @ [b] \<and> set mid' \<subseteq> set mid))"
proof (induction "length ps" arbitrary: ps rule: less_induct)
  case less
  show ?case
  proof (cases "length ps \<le> 2")
    case True
    then show ?thesis using simplify_short by blast
  next
    case long: False
    obtain D m where dm: "farthest ps = (D, m)" by (cases "farthest ps")
    then have f: "farthest_upto ps (length ps - 1) = (D, m)" by (simp add: farthest_def)
    note inv = farthest_upto_facts[OF f]
    show ?thesis
    proof (cases "D \<le> tol")
      case True
      then have r: "simplifyPolyline ps tol = Inr [ps ! 0, ps ! (length ps - 1)]"
        using long dm by (intro simplify_collapse) auto
      have "\<forall>a mid b. ps = a # mid @ [b] \<longrightarrow>
          (\<exists>mid'. [ps ! 0, ps ! (length ps - 1)] = a # mid' @ [b] \<and> set mid' \<subseteq> set mid)"
      proof (intro allI impI)
        fix a mid b assume e: "ps = a # mid @ [b]"
        have "ps ! 0 = a" "ps ! (length ps - 1) = b" unfolding e by (simp_all add: nth_append)
        then have "[ps ! 0, ps ! (length ps - 1)] = a # [] @ [b] \<and> set [] \<subseteq> set mid" by simp
        then show "\<exists>mid'. [ps ! 0, ps ! (length ps - 1)] = a # mid' @ [b] \<and> set mid' \<subseteq> set mid"
          by blast
      qed
      then show ?thesis using r simplify_short[of "[ps ! 0, ps ! (length ps - 1)]" tol] by simp
    next
      case False
      then have Dt: "tol < D" by simp
      then have m0: "m \<noteq> 0" using inv(2) assms by auto
      then have m1: "1 \<le> m" and mn: "m < length ps - 1" using inv(3) by auto
      from split_at[OF m1 mn] obtain a xs ys b where
        ps: "ps = a # xs @ ps ! m # ys @ [b]" and lx: "length xs = m - 1" by blast
      define c where "c = ps ! m"
      have ps': "ps = a # xs @ c # ys @ [b]" using ps c_def by simp
      have m_eq: "m = length xs + 1" using lx m1 by simp
      have far: "farthest (a # xs @ c # ys @ [b]) = (D, length xs + 1)"
        using dm ps' m_eq by simp
      note ff = farthest_facts[OF far]
      have "length (a # xs @ [c]) < length ps" using ps' by simp
      from less[OF this] obtain L where
        L12: "simplifyPolyline (a # xs @ [c]) tol = Inr L" "simplifyPolyline L tol = Inr L"
        and Lsh: "\<forall>a' mid b'. a # xs @ [c] = a' # mid @ [b'] \<longrightarrow>
          (\<exists>mid'. L = a' # mid' @ [b'] \<and> set mid' \<subseteq> set mid)"
        by blast
      from Lsh[rule_format, of a xs c] obtain mL where
        L34: "L = a # mL @ [c]" "set mL \<subseteq> set xs" by blast
      note L = L12 L34
      have "length (c # ys @ [b]) < length ps" using ps' by simp
      from less[OF this] obtain R where
        R12: "simplifyPolyline (c # ys @ [b]) tol = Inr R" "simplifyPolyline R tol = Inr R"
        and Rsh: "\<forall>a' mid b'. c # ys @ [b] = a' # mid @ [b'] \<longrightarrow>
          (\<exists>mid'. R = a' # mid' @ [b'] \<and> set mid' \<subseteq> set mid)"
        by blast
      from Rsh[rule_format, of c ys b] obtain mR where
        R34: "R = c # mR @ [b]" "set mR \<subseteq> set ys" by blast
      note R = R12 R34
      define r where "r = a # mL @ c # mR @ [b]"
      have bl: "butlast L @ R = r" by (simp add: L(3) R(3) r_def butlast_append)
      have res: "simplifyPolyline ps tol = Inr r"
        using simplify_split[OF far Dt L(1) R(1)] ps' bl by simp
      have far_r: "farthest (a # mL @ c # mR @ [b]) = (perpendicularDistance c a b, length mL + 1)"
        using ff L(4) R(4) by (intro farthest_decomposed) auto
      have Dt': "tol < perpendicularDistance c a b" using ff Dt by simp
      have "simplifyPolyline (a # mL @ c # mR @ [b]) tol = Inr (butlast L @ R)"
        using simplify_split[OF far_r Dt'] L(2) R(2) unfolding L(3) R(3) by blast
      then have idem: "simplifyPolyline r tol = Inr r" using bl by (simp add: r_def)
      have shape: "\<forall>a' mid b'. ps = a' # mid @ [b'] \<longrightarrow>
          (\<exists>mid'. r = a' # mid' @ [b'] \<and> set mid' \<subseteq> set mid)"
      proof (intro allI impI)
        fix a' mid b' assume e: "ps = a' # mid @ [b']"
        then have "a' # mid @ [b'] = a # (xs @ c # ys) @ [b]" using ps' by simp
        then have "a' = a" "mid = xs @ c # ys" "b' = b" by auto
        moreover have "r = a # (mL @ c # mR) @ [b]" by (simp add: r_def)
        moreover have "set (mL @ c # mR) \<subseteq> set (xs @ c # ys)" using L(4) R(4) by auto
        ultimately show "\<exists>mid'. r = a' # mid' @ [b'] \<and> set mid' \<subseteq> set mid" by blast
      qed
      from res idem shape show ?thesis by blast
    qed
  qed
qed

lemma no_point_betweenD:
  "no_point_between ps \<Longrightarrow> i < k \<Longrightarrow> k < j \<Longrightarrow> j < length ps \<Longrightarrow>
   0 < perpendicularDistance (ps ! k) (ps ! i) (ps ! j)"
  by (simp add: no_point_between_def)

lemma no_point_between_take:
  assumes "no_point_between ps"
  shows "no_point_between (take n ps)"
  unfolding no_point_between_def
proof (intro allI impI)
  fix i k j assume a: "i < k \<and> k < j \<and> j < length (take n ps)"
  then have "take n ps ! i = ps ! i" "take n ps ! k = ps ! k" "take n ps ! j = ps ! j" by simp_all
  moreover have "0 < perpendicularDistance (ps ! k) (ps ! i) (ps ! j)"
    using a by (intro no_point_betweenD[OF assms]) auto
  ultimately show "0 < perpendicularDistance (take n ps ! k) (take n ps ! i) (take n ps ! j)"
    by simp
qed

lemma no_point_between_drop:
  assumes "no_point_between ps"
  shows "no_point_between (drop n ps)"
  unfolding no_point_between_def
proof (intro allI impI)
  fix i k j assume a: "i < k \<and> k < j \<and> j < length (drop n ps)"
  then have "j < length ps - n" by simp
  then have "n \<le> length ps" by linarith
  then have "drop n ps ! i = ps ! (n + i)" "drop n ps ! k = ps ! (n + k)"
    "drop n ps ! j = ps ! (n + j)" by (simp_all add: nth_drop)
  moreover have "0 < perpendicularDistance (ps ! (n + k)) (ps ! (n + i)) (ps ! (n + j))"
    using a by (intro no_point_betweenD[OF assms]) auto
  ultimately show "0 < perpendicularDistance (drop n ps ! k) (drop n ps ! i) (drop n ps ! j)"
    by simp
qed

lemma simplify_zero_unchanged:
  "no_point_between ps \<Longrightarrow> simplifyPolyline ps 0 = Inr ps"
proof (induction "length ps" arbitrary: ps rule: less_induct)
  case less
  show ?case
  proof (cases "length ps \<le> 2")
    case True
    then show ?thesis by (rule simplify_short)
  next
    case long: False
    obtain D m where dm: "farthest ps = (D, m)" by (cases "farthest ps")
    then have f: "farthest_upto ps (length ps - 1) = (D, m)" by (simp add: farthest_def)
    note inv = farthest_upto_facts[OF f]
    have "0 < perpendicularDistance (ps ! 1) (ps ! 0) (ps ! (length ps - 1))"
      using long by (intro no_point_betweenD[OF less.prems]) auto
    then have "0 < segment_distance ps 1" by (simp add: segment_distance_def)
    moreover have "segment_distance ps 1 \<le> D" using long by (intro inv(7)) auto
    ultimately have D0: "0 < D" by simp
    then have m0: "m \<noteq> 0" using inv(2) by auto
    then have m1: "1 \<le> m" and mn: "m < length ps - 1" using inv(3) by auto
    from split_at[OF m1 mn] obtain a xs ys b where
      ps: "ps = a # xs @ ps ! m # ys @ [b]" and lx: "length xs = m - 1" by blast
    define c where "c = ps ! m"
    have ps': "ps = a # xs @ c # ys @ [b]" using ps c_def by simp
    have m_eq: "m = length xs + 1" using lx m1 by simp
    have far: "farthest (a # xs @ c # ys @ [b]) = (D, length xs + 1)"
      using dm ps' m_eq by simp
    have tk: "a # xs @ [c] = take (m + 1) ps" by (subst ps') (simp add: m_eq)
    have dr: "c # ys @ [b] = drop m ps" by (subst ps') (simp add: m_eq)
    have nL: "no_point_between (a # xs @ [c])"
      unfolding tk using less.prems by (rule no_point_between_take)
    have nR: "no_point_between (c # ys @ [b])"
      unfolding dr using less.prems by (rule no_point_between_drop)
    have "length (a # xs @ [c]) < length ps" using ps' by simp
    from less.hyps[OF this nL] have L: "simplifyPolyline (a # xs @ [c]) 0 = Inr (a # xs @ [c])" .
    have "length (c # ys @ [b]) < length ps" using ps' by simp
    from less.hyps[OF this nR] have R: "simplifyPolyline (c # ys @ [b]) 0 = Inr (c # ys @ [b])" .
    show ?thesis using simplify_split[OF far D0 L R] ps' by (simp add: butlast_append)
  qed
qed


lemma fl_Ints:
  assumes "x \<in> \<int>" "\<bar>x\<bar> < 9007199254740992"
  shows "fl x = x"
proof -
  from assms(1) obtain m :: int where m: "x = of_int m" by (auto elim: Ints_cases)
  have "\<bar>m\<bar> < 9007199254740992" using assms(2) unfolding m by linarith
  then show ?thesis unfolding m by (rule fl_of_int)
qed

lemma fl_pow2_neg: "fl (1 / 2 ^ 30) = 1 / 2 ^ 30" "fl (1 / 2 ^ 60) = 1 / 2 ^ 60"
  "fl (1 / 2 ^ 58) = 1 / 2 ^ 58" "fl (1 / 2 ^ 29) = 1 / 2 ^ 29"
  using fl_exact[of 1 "- 30"] fl_exact[of 1 "- 60"] fl_exact[of 1 "- 58"] fl_exact[of 1 "- 29"]
  by simp_all

text \<open>Two points that are close in both coordinates have a small computed distance.\<close>

lemma distance_small:
  assumes "\<bar>px p - px q\<bar> \<le> 1 / 2 ^ 30" "\<bar>py p - py q\<bar> \<le> 1 / 2 ^ 30"
  shows "distance p q \<le> 1 / 2 ^ 29"
proof -
  define ex where "ex = fl (px p - px q)"
  define ey where "ey = fl (py p - py q)"
  have ex: "\<bar>ex\<bar> \<le> 1 / 2 ^ 30" unfolding ex_def using fl_pow2_neg(1) assms(1) by (rule fl_abs_le)
  have ey: "\<bar>ey\<bar> \<le> 1 / 2 ^ 30" unfolding ey_def using fl_pow2_neg(1) assms(2) by (rule fl_abs_le)
  have sq: "a * a \<le> 1 / 2 ^ 60" if "\<bar>a\<bar> \<le> 1 / 2 ^ 30" for a :: real
  proof -
    have "\<bar>a\<bar> * \<bar>a\<bar> \<le> (1 / 2 ^ 30) * (1 / 2 ^ 30)" using that by (intro mult_mono) simp_all
    then show ?thesis by (simp add: abs_mult_self_eq)
  qed
  have "fl (ex * ex) \<le> 1 / 2 ^ 60" using fl_pow2_neg(2) sq[OF ex] by (rule fl_le)
  moreover have "fl (ey * ey) \<le> 1 / 2 ^ 60" using fl_pow2_neg(2) sq[OF ey] by (rule fl_le)
  ultimately have "fl (ex * ex) + fl (ey * ey) \<le> 1 / 2 ^ 58" by simp
  then have s: "fl (fl (ex * ex) + fl (ey * ey)) \<le> 1 / 2 ^ 58" using fl_pow2_neg(3) by (intro fl_le)
  have "sqrt (fl (fl (ex * ex) + fl (ey * ey))) \<le> sqrt (1 / 2 ^ 58)" using s by simp
  also have "\<dots> = 1 / 2 ^ 29"
  proof -
    have "(1 / 2 ^ 58 :: real) = (1 / 2 ^ 29)\<^sup>2" by (simp add: power2_eq_square)
    then show ?thesis by (simp only: real_sqrt_abs) simp
  qed
  finally have "fl (sqrt (fl (fl (ex * ex) + fl (ey * ey)))) \<le> 1 / 2 ^ 29"
    using fl_pow2_neg(4) by (intro fl_le)
  then show ?thesis by (simp add: distance_def Let_def ex_def ey_def)
qed

text \<open>
  One coordinate of the projection: the parameter is off by at most \<open>2^-53\<close>, its product
  with the difference of the end points and the sum with the start point are rounded.
\<close>

lemma projection_close:
  assumes "\<bar>a\<bar> \<le> 1048576" "\<bar>d\<bar> \<le> 2097152"
    and "0 \<le> t" "t \<le> 1" "\<bar>t - u\<bar> \<le> 1 / 9007199254740992"
  shows "\<bar>fl (a + fl (t * d)) - (a + u * d)\<bar> \<le> 1 / 2 ^ 30"
proof -
  have td: "\<bar>t * d\<bar> \<le> 2097152"
  proof -
    have "\<bar>t\<bar> * \<bar>d\<bar> \<le> 1 * 2097152" using assms(2,3,4) by (intro mult_mono) simp_all
    then show ?thesis by (simp add: abs_mult)
  qed
  have e1: "\<bar>fl (t * d) - t * d\<bar> \<le> 2097152 / 9007199254740992"
    using td by (rule fl_error_bound) (simp add: power_int_minus)
  have e2: "\<bar>t * d - u * d\<bar> \<le> 2097152 / 9007199254740992"
  proof -
    have "\<bar>t - u\<bar> * \<bar>d\<bar> \<le> (1 / 9007199254740992) * 2097152"
      using assms(2,5) by (intro mult_mono) simp_all
    then show ?thesis by (simp add: abs_mult[symmetric] left_diff_distrib)
  qed
  have f: "\<bar>fl (t * d)\<bar> \<le> 2097152"
  proof (rule fl_abs_le)
    show "fl 2097152 = 2097152" by (rule fl_numeral) simp
    show "\<bar>t * d\<bar> \<le> 2097152" by (rule td)
  qed
  have "\<bar>a + fl (t * d)\<bar> \<le> 4194304" using assms(1) f by linarith
  then have e3: "\<bar>fl (a + fl (t * d)) - (a + fl (t * d))\<bar> \<le> 4194304 / 9007199254740992"
    by (rule fl_error_bound) (simp add: power_int_minus)
  have "\<bar>fl (a + fl (t * d)) - (a + u * d)\<bar>
      \<le> 4194304 / 9007199254740992 + 2097152 / 9007199254740992
        + 2097152 / 9007199254740992"
    using e1 e2 e3 by linarith
  then show ?thesis by simp
qed


lemma Ints_sq_pos:
  assumes "x \<in> \<int>" "x \<noteq> 0"
  shows "(1::real) \<le> x * x"
proof -
  from assms(1) obtain m :: int where m: "x = of_int m" by (auto elim: Ints_cases)
  have "m \<noteq> 0" using assms(2) m by simp
  then have "1 \<le> m * m" by (metis mult_eq_0_iff not_sum_squares_lt_zero linorder_not_less
        int_one_le_iff_zero_less zero_less_mult_iff linorder_neqE_linordered_idom mult_less_0_iff)
  then have "(1::real) \<le> of_int (m * m)" by linarith
  then show ?thesis by (simp add: m)
qed

lemma abs_mult_le:
  assumes "\<bar>x\<bar> \<le> a" "\<bar>y\<bar> \<le> b"
  shows "\<bar>x * y\<bar> \<le> a * (b::real)"
proof -
  have "\<bar>x\<bar> * \<bar>y\<bar> \<le> a * b" using assms by (intro mult_mono) simp_all
  then show ?thesis by (simp add: abs_mult)
qed

text \<open>
  A point of the grid on the segment between two points of the grid: the computed distance
  is at most \<open>2^-29\<close>.
\<close>

lemma perpendicularDistance_on_segment_le:
  assumes "grid_point p" "grid_point a" "grid_point b" "on_segment p a b"
  shows "perpendicularDistance p a b \<le> 1 / 2 ^ 29"
proof -
  from assms(4) obtain t where t: "0 \<le> t" "t \<le> 1"
    and x: "px p = px a + t * (px b - px a)" and y: "py p = py a + t * (py b - py a)"
    unfolding on_segment_def by blast
  define dx where "dx = px b - px a"
  define dy where "dy = py b - py a"
  define ax where "ax = px p - px a"
  define ay where "ay = py p - py a"
  have I: "dx \<in> \<int>" "dy \<in> \<int>" "ax \<in> \<int>" "ay \<in> \<int>"
    using assms(1,2,3) by (simp_all add: grid_point_def dx_def dy_def ax_def ay_def)
  have B: "\<bar>dx\<bar> \<le> 2097152" "\<bar>dy\<bar> \<le> 2097152" "\<bar>ax\<bar> \<le> 2097152" "\<bar>ay\<bar> \<le> 2097152"
    using assms(1,2,3) unfolding grid_point_def dx_def dy_def ax_def ay_def by linarith+
  have A: "\<bar>px a\<bar> \<le> 1048576" "\<bar>py a\<bar> \<le> 1048576" using assms(2) by (simp_all add: grid_point_def)
  have P: "\<bar>u * v\<bar> \<le> 4398046511104" if "\<bar>u\<bar> \<le> 2097152" "\<bar>v\<bar> \<le> 2097152" for u v :: real
    using abs_mult_le[OF that] by simp
  have f1: "fl dx = dx" "fl dy = dy" "fl ax = ax" "fl ay = ay"
    using I B by (auto intro!: fl_Ints)
  have f2: "fl (dx * dx) = dx * dx" "fl (dy * dy) = dy * dy"
    "fl (ax * dx) = ax * dx" "fl (ay * dy) = ay * dy"
    using I P[OF B(1) B(1)] P[OF B(2) B(2)] P[OF B(3) B(1)] P[OF B(4) B(2)]
    by (auto intro!: fl_Ints)
  have f3: "fl (dx * dx + dy * dy) = dx * dx + dy * dy"
  proof (rule fl_Ints)
    show "dx * dx + dy * dy \<in> \<int>" using I by simp
    show "\<bar>dx * dx + dy * dy\<bar> < 9007199254740992"
      using P[OF B(1) B(1)] P[OF B(2) B(2)] by linarith
  qed
  have f4: "fl (ax * dx + ay * dy) = ax * dx + ay * dy"
  proof (rule fl_Ints)
    show "ax * dx + ay * dy \<in> \<int>" using I by simp
    show "\<bar>ax * dx + ay * dy\<bar> < 9007199254740992"
      using P[OF B(3) B(1)] P[OF B(4) B(2)] by linarith
  qed
  define L where "L = dx * dx + dy * dy"
  have ax: "ax = t * dx" and ay: "ay = t * dy" by (simp_all add: ax_def ay_def dx_def dy_def x y)
  have num: "ax * dx + ay * dy = t * L" by (simp add: ax ay L_def algebra_simps)
  show ?thesis
  proof (cases "L = 0")
    case True
    then have "dx = 0" "dy = 0"
      by (simp_all add: L_def sum_squares_eq_zero_iff[unfolded power2_eq_square]
          add_nonneg_eq_0_iff)
    then have e: "px p = px a" "py p = py a" using ax ay by (simp_all add: ax_def ay_def)
    have "distance p a \<le> 1 / 2 ^ 29" by (rule distance_small) (simp_all add: e)
    moreover have "perpendicularDistance p a b = distance p a"
      unfolding perpendicularDistance_def Let_def dx_def[symmetric] dy_def[symmetric] f1 f2 f3
      using True by (simp add: L_def fl_0)
    ultimately show ?thesis by simp
  next
    case False
    define t0 where "t0 = fl t"
    have quot: "(ax * dx + ay * dy) / L = t" using False num by simp
    have fL: "fl L = L" using f3 by (simp add: L_def)
    have t0: "0 \<le> t0" "t0 \<le> 1" unfolding t0_def
      using t fl_nonneg[of t] fl_le[OF fl_1, of t] by simp_all
    have te: "\<bar>t0 - t\<bar> \<le> 1 / 9007199254740992"
    proof -
      have "\<bar>t\<bar> \<le> 1" using t by simp
      then have "\<bar>fl t - t\<bar> \<le> 1 / 9007199254740992"
        by (rule fl_error_bound) (simp add: power_int_minus)
      then show ?thesis by (simp add: t0_def)
    qed
    define q where "q = \<lparr>px = fl (px a + fl (t0 * dx)), py = fl (py a + fl (t0 * dy))\<rparr>"
    have "\<bar>fl (px a + fl (t0 * dx)) - (px a + t * dx)\<bar> \<le> 1 / 2 ^ 30"
      using A(1) B(1) t0 te by (rule projection_close)
    then have cx: "\<bar>px p - px q\<bar> \<le> 1 / 2 ^ 30" by (simp add: q_def x dx_def abs_minus_commute)
    have "\<bar>fl (py a + fl (t0 * dy)) - (py a + t * dy)\<bar> \<le> 1 / 2 ^ 30"
      using A(2) B(2) t0 te by (rule projection_close)
    then have cy: "\<bar>py p - py q\<bar> \<le> 1 / 2 ^ 30" by (simp add: q_def y dy_def abs_minus_commute)
    have "distance p q \<le> 1 / 2 ^ 29" using cx cy by (rule distance_small)
    moreover have "perpendicularDistance p a b = distance p q"
    proof -
      have c: "max 0 (min 1 t0) = t0" using t0 by simp
      show ?thesis
        unfolding perpendicularDistance_def Let_def dx_def[symmetric] dy_def[symmetric]
          ax_def[symmetric] ay_def[symmetric] f1 f2 f3 f4 L_def[symmetric]
        using False by (simp add: fL quot t0_def[symmetric] c q_def)
    qed
    ultimately show ?thesis by simp
  qed
qed


lemma simplify_straight:
  assumes "1 / 2 ^ 29 \<le> tol" "2 \<le> length ps" "\<forall>p\<in>set ps. grid_point p"
    and "\<forall>k. 1 \<le> k \<and> k < length ps - 1 \<longrightarrow> on_segment (ps ! k) (hd ps) (last ps)"
  shows "simplifyPolyline ps tol = Inr [hd ps, last ps]"
proof -
  have ne: "ps \<noteq> []" using assms(2) by auto
  have h: "hd ps = ps ! 0" using ne by (simp add: hd_conv_nth)
  have l: "last ps = ps ! (length ps - 1)" using ne by (simp add: last_conv_nth)
  show ?thesis
  proof (cases "length ps = 2")
    case True
    then obtain a b where "ps = [a, b]"
      by (metis One_nat_def Suc_1 length_0_conv length_Suc_conv)
    then show ?thesis by (simp add: simplify_short)
  next
    case False
    then have long: "2 < length ps" using assms(2) by simp
    obtain D m where f: "farthest_upto ps (length ps - 1) = (D, m)"
      by (cases "farthest_upto ps (length ps - 1)")
    note inv = farthest_upto_facts[OF f]
    have "D \<le> tol"
    proof (cases "m = 0")
      case True
      then have "D = 0" by (rule inv(2))
      then show ?thesis using assms(1) by simp
    next
      case m: False
      then have lt: "m < length ps - 1" by (rule inv(3))
      then have "on_segment (ps ! m) (hd ps) (last ps)" using assms(4) m by simp
      moreover have "grid_point (ps ! m)" "grid_point (hd ps)" "grid_point (last ps)"
        using assms(3) ne lt by simp_all
      ultimately have "segment_distance ps m \<le> 1 / 2 ^ 29"
        unfolding segment_distance_def h l
        by (intro perpendicularDistance_on_segment_le)
      then show ?thesis using inv(4)[OF m] assms(1) by simp
    qed
    then have "fst (farthest ps) \<le> tol" using f by (simp add: farthest_def)
    then show ?thesis using simplify_collapse[OF long] h l by simp
  qed
qed

lemma fl_half: "fl (1 / 2) = 1 / 2"
  using fl_exact[of 1 "- 1"] by simp

lemma farthest_three: "farthest [a, b, c] = farthest_step [a, b, c] 1 (0, 0)"
  by (simp add: farthest_def farthest_upto_def)

lemma simplify_three:
  "0 \<le> tol \<Longrightarrow> simplifyPolyline [a, b, c] tol =
     (if perpendicularDistance b a c > tol then Inr [a, b, c] else Inr [a, c])"
  by (simp add: simplifyPolyline.simps[of "[a, b, c]"] simplifyPolyline.simps[of "[a, b]"]
      simplifyPolyline.simps[of "[b, c]"] farthest_three farthest_step_def
      segment_distance_def Let_def)

lemma perpendicularDistance_1_0_2:
  "perpendicularDistance \<lparr>px = 1, py = 0\<rparr> \<lparr>px = 0, py = 0\<rparr> \<lparr>px = 2, py = 0\<rparr> = 0"
  by (simp add: perpendicularDistance_def distance_def Let_def fl_0 fl_1 fl_numeral fl_half)

lemma perpendicularDistance_1_1_2:
  "perpendicularDistance \<lparr>px = 1, py = 1\<rparr> \<lparr>px = 0, py = 0\<rparr> \<lparr>px = 2, py = 0\<rparr> = 1"
  by (simp add: perpendicularDistance_def distance_def Let_def fl_0 fl_1 fl_numeral fl_half)

lemma perpendicularDistance_10_0_1:
  "perpendicularDistance \<lparr>px = 10, py = 0\<rparr> \<lparr>px = 0, py = 0\<rparr> \<lparr>px = 1, py = 0\<rparr> = 9"
proof -
  have "sqrt 81 = 9" using real_sqrt_abs[of 9] by (simp add: power2_eq_square)
  then show ?thesis
    by (simp add: perpendicularDistance_def distance_def Let_def fl_0 fl_1 fl_numeral)
qed

lemma perpendicularDistance_15_0_22:
  "perpendicularDistance \<lparr>px = 15, py = 0\<rparr> \<lparr>px = 0, py = 0\<rparr> \<lparr>px = 22, py = 0\<rparr>
     = 1 / 2 ^ 49"
proof -
  define t1 :: real where "t1 = 6141272219141585 / 2 ^ 53"
  define x1 :: real where "x1 = 8444249301319679 / 2 ^ 49"
  define e :: real where "e = 1 / 2 ^ 49"
  define e2 :: real where "e2 = 1 / 2 ^ 98"
  have t: "fl (15 / 22) = t1"
    using fl_eqI[of "- 1" "15 / 22" 6141272219141585]
    by (simp add: t1_def power_int_minus)
  have t01: "0 \<le> t1" "t1 \<le> 1" by (simp_all add: t1_def)
  have x: "fl (t1 * 22) = x1"
    using fl_eqI[of 3 "t1 * 22" 8444249301319679]
    by (simp add: t1_def x1_def power_int_minus)
  have x': "fl x1 = x1" using fl_exact[of 8444249301319679 "- 49"]
    by (simp add: x1_def power_int_minus)
  have "15 - x1 = e" by (simp add: x1_def e_def)
  moreover have fe: "fl e = e" using fl_exact[of 1 "- 49"] by (simp add: e_def power_int_minus)
  ultimately have d: "fl (15 - x1) = e" by simp
  have "e * e = e2" by (simp add: e_def e2_def)
  moreover have fe2: "fl e2 = e2" using fl_exact[of 1 "- 98"] by (simp add: e2_def power_int_minus)
  ultimately have s: "fl (e * e) = e2" by simp
  have r: "sqrt e2 = e"
  proof -
    have "e2 = e\<^sup>2" by (simp add: e_def e2_def power2_eq_square)
    then show ?thesis using real_sqrt_abs[of e] by (simp add: e_def)
  qed
  have "perpendicularDistance \<lparr>px = 15, py = 0\<rparr> \<lparr>px = 0, py = 0\<rparr> \<lparr>px = 22, py = 0\<rparr> = e"
    using t01
    by (simp add: perpendicularDistance_def distance_def Let_def fl_0 fl_1 fl_numeral
        t x x' d s fe fe2 r)
  then show ?thesis by (simp add: e_def)
qed


text \<open>
  Claim C6, amended. For every polyline with coordinates of magnitude at most \<open>2^500\<close>
  and every tolerance that is not negative, \<open>simplifyPolyline\<close> returns a polyline, and
  simplifying that result again with the same tolerance returns it unchanged. With the
  tolerance 0 the original sequence is returned unchanged when every point of it has a
  computed distance above 0 from the segment between any earlier and any later point. For
  every polyline of at least two points with integer
  coordinates of magnitude at most \<open>2^20\<close>, each interior point of which lies on the segment
  between the first and the last point, every tolerance of at least \<open>2^-29\<close> returns
  exactly the two endpoints.
\<close>

theorem simplifyPolyline_properties:
  "(in_range ps \<and> 0 \<le> tol \<longrightarrow>
      (\<exists>r. simplifyPolyline ps tol = Inr r \<and> simplifyPolyline r tol = Inr r)) \<and>
   (in_range ps \<and> no_point_between ps \<longrightarrow> simplifyPolyline ps 0 = Inr ps) \<and>
   (1 / 2 ^ 29 \<le> tol \<and> 2 \<le> length ps \<and> (\<forall>p\<in>set ps. grid_point p) \<and>
      (\<forall>k. 1 \<le> k \<and> k < length ps - 1 \<longrightarrow> on_segment (ps ! k) (hd ps) (last ps)) \<longrightarrow>
      simplifyPolyline ps tol = Inr [hd ps, last ps])"
proof (intro conjI impI)
  assume "in_range ps \<and> 0 \<le> tol"
  then have "0 \<le> tol" by simp
  from simplify_shape_idem[OF this, of ps]
  show "\<exists>r. simplifyPolyline ps tol = Inr r \<and> simplifyPolyline r tol = Inr r" by blast
next
  assume "in_range ps \<and> no_point_between ps"
  then have "no_point_between ps" by simp
  then show "simplifyPolyline ps 0 = Inr ps" by (rule simplify_zero_unchanged)
next
  assume "1 / 2 ^ 29 \<le> tol \<and> 2 \<le> length ps \<and> (\<forall>p\<in>set ps. grid_point p) \<and>
      (\<forall>k. 1 \<le> k \<and> k < length ps - 1 \<longrightarrow> on_segment (ps ! k) (hd ps) (last ps))"
  then show "simplifyPolyline ps tol = Inr [hd ps, last ps]"
    using simplify_straight by blast
qed

theorem simplifyPolyline_properties_witness:
  "(\<exists>r. simplifyPolyline [\<lparr>px = 0, py = 0\<rparr>, \<lparr>px = 1, py = 1\<rparr>, \<lparr>px = 2, py = 0\<rparr>] 0 = Inr r \<and>
        simplifyPolyline r 0 = Inr r) \<and>
   simplifyPolyline [\<lparr>px = 0, py = 0\<rparr>, \<lparr>px = 1, py = 1\<rparr>, \<lparr>px = 2, py = 0\<rparr>] 0
     = Inr [\<lparr>px = 0, py = 0\<rparr>, \<lparr>px = 1, py = 1\<rparr>, \<lparr>px = 2, py = 0\<rparr>] \<and>
   simplifyPolyline [\<lparr>px = 0, py = 0\<rparr>, \<lparr>px = 1, py = 0\<rparr>, \<lparr>px = 2, py = 0\<rparr>] 1
     = Inr [\<lparr>px = 0, py = 0\<rparr>, \<lparr>px = 2, py = 0\<rparr>]"
proof -
  let ?p = "[\<lparr>px = 0, py = 0\<rparr>, \<lparr>px = 1, py = 1\<rparr>, \<lparr>px = 2, py = 0\<rparr>]"
  let ?q = "[\<lparr>px = 0, py = 0\<rparr>, \<lparr>px = 1, py = 0\<rparr>, \<lparr>px = 2, py = 0\<rparr>]"
  have np: "no_point_between ?p"
    unfolding no_point_between_def
  proof (intro allI impI)
    fix i k j :: nat assume "i < k \<and> k < j \<and> j < length ?p"
    then have "i = 0" "k = 1" "j = 2" by auto
    then show "0 < perpendicularDistance (?p ! k) (?p ! i) (?p ! j)"
      by (simp add: perpendicularDistance_1_1_2)
  qed
  have os: "\<forall>k. 1 \<le> k \<and> k < length ?q - 1 \<longrightarrow> on_segment (?q ! k) (hd ?q) (last ?q)"
  proof (intro allI impI)
    fix k :: nat assume "1 \<le> k \<and> k < length ?q - 1"
    then have "k = 1" by auto
    moreover have "on_segment \<lparr>px = 1, py = 0\<rparr> \<lparr>px = 0, py = 0\<rparr> \<lparr>px = 2, py = 0\<rparr>"
      unfolding on_segment_def by (rule exI[of _ "1 / 2"]) simp
    ultimately show "on_segment (?q ! k) (hd ?q) (last ?q)" by simp
  qed
  have gp: "\<forall>p\<in>set ?q. grid_point p" by (simp add: grid_point_def)
  have ir: "in_range ?p" by (simp add: in_range_def)
  show ?thesis
    using simplifyPolyline_properties[of ?p 0] simplifyPolyline_properties[of ?q 1] np os gp ir
    by simp
qed

text \<open>
  Claim C6 as stated fails three times. With the tolerance 0 the point (1,0) between (0,0)
  and (2,0) is dropped, since its distance 0 is not greater than the tolerance. The points
  (0,0), (10,0), (1,0) lie on one straight line, but the distance is measured to the segment
  from (0,0) to (1,0), from which (10,0) is 9 away: with the tolerance 2 all three points
  are kept. And the point (15,0) lies between (0,0) and (22,0), but the parameter of its
  projection, 15/22, is rounded, and the computed distance is \<open>2^-49\<close>: with the
  tolerance \<open>2^-50\<close>, which is above 0, all three points are kept.
\<close>

theorem simplifyPolyline_drops_and_keeps:
  "simplifyPolyline [\<lparr>px = 0, py = 0\<rparr>, \<lparr>px = 1, py = 0\<rparr>, \<lparr>px = 2, py = 0\<rparr>] 0
     = Inr [\<lparr>px = 0, py = 0\<rparr>, \<lparr>px = 2, py = 0\<rparr>] \<and>
   simplifyPolyline [\<lparr>px = 0, py = 0\<rparr>, \<lparr>px = 10, py = 0\<rparr>, \<lparr>px = 1, py = 0\<rparr>] 2
     = Inr [\<lparr>px = 0, py = 0\<rparr>, \<lparr>px = 10, py = 0\<rparr>, \<lparr>px = 1, py = 0\<rparr>] \<and>
   simplifyPolyline [\<lparr>px = 0, py = 0\<rparr>, \<lparr>px = 15, py = 0\<rparr>, \<lparr>px = 22, py = 0\<rparr>] (1 / 2 ^ 50)
     = Inr [\<lparr>px = 0, py = 0\<rparr>, \<lparr>px = 15, py = 0\<rparr>, \<lparr>px = 22, py = 0\<rparr>]"
  by (simp add: simplify_three perpendicularDistance_1_0_2 perpendicularDistance_10_0_1
      perpendicularDistance_15_0_22)

subsection \<open>The edge detector\<close>

lemma interior_iff:
  "(x, y) \<in> set (interior w h) \<longleftrightarrow> 1 \<le> x \<and> x < w - 1 \<and> 1 \<le> y \<and> y < h - 1"
  by (auto simp: interior_def image_iff)

lemma pixel_index_inj:
  fixes w :: nat
  assumes "x < w" "x' < w" "y * w + x = y' * w + x'"
  shows "x = x' \<and> y = y'"
proof -
  have "(y * w + x) mod w = x" "(y' * w + x') mod w = x'" using assms(1,2) by simp_all
  then have x: "x = x'" using assms(3) by simp
  have "(y * w + x) div w = y" "(y' * w + x') div w = y'" using assms(1,2) by simp_all
  then have "y = y'" using assms(3) by simp
  with x show ?thesis by simp
qed

lemma border_not_interior:
  assumes "border_pixel w h x y" "p \<in> set (interior w h)"
  shows "snd p * w + fst p \<noteq> y * w + x"
proof
  assume e: "snd p * w + fst p = y * w + x"
  obtain x' y' where p: "p = (x', y')" by (cases p)
  then have i: "1 \<le> x'" "x' < w - 1" "1 \<le> y'" "y' < h - 1"
    using assms(2) by (simp_all add: interior_iff)
  have "x' < w" using i by simp
  moreover have "x < w" using assms(1) by (simp add: border_pixel_def)
  ultimately have "x' = x \<and> y' = y" using pixel_index_inj[of x' w x y' y] e p by simp
  then show False using i assms(1) by (auto simp: border_pixel_def)
qed

lemma nms_pixel_other:
  "snd p * w + fst p \<noteq> i \<Longrightarrow> nms_pixel m d w p s ! i = s ! i"
  by (simp add: nms_pixel_def Let_def split: prod.splits)

lemma nms_pixel_length: "length (nms_pixel m d w p s) = length s"
  by (simp add: nms_pixel_def Let_def split: prod.splits)

lemma fold_nms_other:
  "\<forall>p\<in>set ps. snd p * w + fst p \<noteq> i \<Longrightarrow>
   fold (nms_pixel m d w) ps s ! i = s ! i \<and> length (fold (nms_pixel m d w) ps s) = length s"
  by (induction ps arbitrary: s) (simp_all add: nms_pixel_other nms_pixel_length)

lemma fold_nms_length: "length (fold (nms_pixel m d w) ps s) = length s"
  by (induction ps arbitrary: s) (simp_all add: nms_pixel_length)

lemma track_pixel_other:
  "snd p * w + fst p \<noteq> i \<Longrightarrow> track_pixel w p s ! i = s ! i"
  by (simp add: track_pixel_def Let_def)

lemma track_pixel_length: "length (track_pixel w p s) = length s"
  by (simp add: track_pixel_def Let_def)

lemma fold_track_length: "length (fold (track_pixel w) ps s) = length s"
  by (induction ps arbitrary: s) (simp_all add: track_pixel_length)

lemma fold_track_other:
  "\<forall>p\<in>set ps. snd p * w + fst p \<noteq> i \<Longrightarrow> fold (track_pixel w) ps s ! i = s ! i"
  by (induction ps arbitrary: s) (simp_all add: track_pixel_other)

lemma border_index: "border_pixel w h x y \<Longrightarrow> y * w + x < w * h"
proof -
  assume "border_pixel w h x y"
  then have x: "x < w" and y: "Suc y \<le> h" by (simp_all add: border_pixel_def)
  have "y * w + x < y * w + w" using x by simp
  also have "\<dots> = Suc y * w" by simp
  also have "\<dots> \<le> h * w" using y by (rule mult_le_mono1)
  finally show ?thesis by (simp add: mult.commute)
qed

text \<open>
  Claim C9, amended. For every gradient magnitude and direction the Sobel step can hand
  over (arrays of \<open>width * height\<close> numbers), every low threshold and every high
  threshold greater than 0, the edge mask of non-maximum suppression, double threshold and
  hysteresis is 0 at every border pixel.
\<close>

theorem border_never_edge:
  assumes "0 < highThreshold"
    and "length magnitude = width * height" and "length direction = width * height"
    and "border_pixel width height x y"
  shows "hysteresis (nonMaximumSuppression magnitude direction width height)
           width height lowThreshold highThreshold ! (y * width + x) = 0"
proof -
  let ?i = "y * width + x"
  let ?s = "nonMaximumSuppression magnitude direction width height"
  have ni: "\<forall>p\<in>set (interior width height). snd p * width + fst p \<noteq> ?i"
    using border_not_interior[OF assms(4)] by blast
  have i: "?i < width * height" using assms(4) by (rule border_index)
  have s0: "?s ! ?i = 0"
    unfolding nonMaximumSuppression_def using fold_nms_other[OF ni] i by simp
  have sl: "length ?s = width * height"
    unfolding nonMaximumSuppression_def by (simp add: fold_nms_length)
  let ?e = "double_threshold ?s width height lowThreshold highThreshold"
  have e: "?e ! ?i = WEAK \<or> ?e ! ?i = 0"
    unfolding double_threshold_def using i sl s0 assms(1) by simp
  let ?t = "fold (track_pixel width) (interior width height) ?e"
  have t: "?t ! ?i = ?e ! ?i" using fold_track_other[OF ni] by simp
  have tl: "?i < length ?t" using i by (simp add: fold_track_length double_threshold_def)
  show ?thesis unfolding hysteresis_def Let_def using tl t e by auto
qed

theorem border_never_edge_witness:
  "hysteresis (nonMaximumSuppression [0, 0, 0, 0, 120, 0, 0, 0, 0] [0, 0, 0, 0, 1, 0, 0, 0, 0] 3 3)
     3 3 50 100 ! (0 * 3 + 2) = 0"
  using border_never_edge[of 100 "[0, 0, 0, 0, 120, 0, 0, 0, 0]" 3 3
      "[0, 0, 0, 0, 1, 0, 0, 0, 0]" 2 0 50]
  by (simp add: border_pixel_def)

text \<open>
  Claim C9 as stated, with thresholds from 0 on, fails at the high threshold 0: the
  suppressed magnitude of a border pixel is 0, which is not below the threshold, so the
  double threshold marks it strong. Here the top-left pixel of a 3 by 3 image is an edge.
\<close>

theorem border_edge_at_zero_threshold:
  "hysteresis (nonMaximumSuppression [0, 0, 0, 0, 40, 0, 0, 0, 0] [0, 0, 0, 0, 0, 0, 0, 0, 0] 3 3)
    3 3 0 0 ! 0 = 255"
proof -
  have i: "interior 3 3 = [(1, 1)]" by (simp add: interior_def upt_rec)
  have u: "[0..<3 * 3] = [0, 1, 2, 3, 4, 5, 6, 7, 8]" by (simp add: upt_rec)
  have r: "replicate (3 * 3) (0::real) = [0, 0, 0, 0, 0, 0, 0, 0, 0]"
    by (simp add: eval_nat_numeral)
  show ?thesis
    by (simp add: hysteresis_def nonMaximumSuppression_def i u r double_threshold_def
        nms_pixel_def track_pixel_def STRONG_def WEAK_def Let_def)
qed

subsection \<open>The point tour planner\<close>

lemma distance_commute: "distance p q = distance q p"
proof -
  have "fl (px q - px p) = - fl (px p - px q)" "fl (py q - py p) = - fl (py p - py q)"
    using fl_minus[of "px p - px q"] fl_minus[of "py p - py q"] by simp_all
  then show ?thesis by (simp add: distance_def Let_def)
qed

lemma distance_nonneg: "0 \<le> distance p q"
proof -
  have n: "0 \<le> fl (a * a)" for a :: real by (rule fl_nonneg) simp
  have "0 \<le> fl (fl (a * a) + fl (b * b))" for a b :: real
    using n[of a] n[of b] by (intro fl_nonneg) linarith
  then have "0 \<le> sqrt (fl (fl (a * a) + fl (b * b)))" for a b :: real by simp
  then show ?thesis unfolding distance_def Let_def by (intro fl_nonneg)
qed

lemma path_length_nonneg: "0 \<le> path_length xs"
  by (induction xs rule: path_length.induct) (simp_all add: distance_nonneg)

lemma length_from_snoc:
  "xs \<noteq> [] \<Longrightarrow>
   length_from acc (xs @ [a]) = fl (length_from acc xs + distance (last xs) a)"
proof (induction xs arbitrary: acc)
  case Nil
  then show ?case by simp
next
  case (Cons x xs)
  note IH = Cons.IH
  show ?case
  proof (cases xs)
    case Nil
    then show ?thesis by simp
  next
    case (Cons b rest)
    then show ?thesis using IH[of "fl (acc + distance x b)"] by simp
  qed
qed

lemma fold_err_append:
  "fold_err f (xs @ ys) s = (case fold_err f xs s of Inl e \<Rightarrow> Inl e | Inr s' \<Rightarrow> fold_err f ys s')"
  by (induction xs arbitrary: s) (auto split: sum.splits)

lemma path_length_append:
  "xs \<noteq> [] \<Longrightarrow> ys \<noteq> [] \<Longrightarrow>
   path_length (xs @ ys) = path_length xs + distance (last xs) (hd ys) + path_length ys"
proof (induction xs rule: path_length.induct)
  case (1 a b rest)
  then show ?case by simp
qed (auto simp: neq_Nil_conv)

lemma path_length_snoc:
  "xs \<noteq> [] \<Longrightarrow> path_length (xs @ [a]) = path_length xs + distance (last xs) a"
  using path_length_append[of xs "[a]"] by simp

lemma path_length_rev: "path_length (rev xs) = path_length xs"
proof (induction xs rule: path_length.induct)
  case (1 a b rest)
  have "path_length (rev (a # b # rest)) = path_length ((rev rest @ [b]) @ [a])" by simp
  also have "\<dots> = path_length (rev rest @ [b]) + distance b a"
    by (subst path_length_snoc) simp_all
  also have "\<dots> = path_length (b # rest) + distance a b"
    using 1 by (simp add: distance_commute)
  finally show ?case by simp
qed simp_all

lemma valid_tour_nth: "valid_tour tour points \<Longrightarrow> i < length tour \<Longrightarrow> tour ! i < length points"
  by (simp add: valid_tour_def list_all_length)

lemma tour_fold_sum:
  assumes "valid_tour tour points" "m < length tour"
  shows "fold_err
        (\<lambda>i totalLength.
           case point_at points (tour ! i) of
             Inl e \<Rightarrow> Inl e
           | Inr p1 \<Rightarrow>
               (case point_at points (tour ! (i + 1)) of
                  Inl e \<Rightarrow> Inl e
                | Inr p2 \<Rightarrow> Inr (fl (totalLength + distance p1 p2))))
        [0..<m] 0 = Inr (length_from 0 (map ((!) points) (take (Suc m) tour)))"
  using assms(2)
proof (induction m)
  case 0
  then show ?case by (cases tour) simp_all
next
  case (Suc m)
  have v1: "tour ! m < length points" and v2: "tour ! Suc m < length points"
    using Suc.prems assms(1) by (simp_all add: valid_tour_nth)
  have t: "take (Suc (Suc m)) tour = take (Suc m) tour @ [tour ! Suc m]"
    using Suc.prems by (simp add: take_Suc_conv_app_nth)
  have l: "last (map ((!) points) (take (Suc m) tour)) = points ! (tour ! m)"
    using Suc.prems by (simp add: last_map take_Suc_conv_app_nth)
  have ne: "map ((!) points) (take (Suc m) tour) \<noteq> []" using Suc.prems by auto
  have "length_from 0 (map ((!) points) (take (Suc (Suc m)) tour)) =
      fl (length_from 0 (map ((!) points) (take (Suc m) tour))
        + distance (points ! (tour ! m)) (points ! (tour ! Suc m)))"
    unfolding t using length_from_snoc[OF ne] l by simp
  then show ?case using Suc v1 v2 by (simp add: fold_err_append point_at_def)
qed

lemma calculateTourLength_valid:
  assumes "valid_tour tour points"
  shows "calculateTourLength tour points = Inr (length_from 0 (map ((!) points) tour))"
proof (cases "length tour < 2")
  case True
  then have "length_from 0 (map ((!) points) tour) = 0"
    by (cases tour; cases "tl tour") auto
  then show ?thesis using True by (simp add: calculateTourLength_def)
next
  case False
  then have "length tour - 1 < length tour" by simp
  from tour_fold_sum[OF assms this] False show ?thesis
    by (simp add: calculateTourLength_def)
qed

lemma reverse_segment_length:
  assumes "1 \<le> i" "i \<le> j" "j + 1 < length q"
  shows "path_length (take i q @ rev (take (j + 1 - i) (drop i q)) @ drop (j + 1) q) =
     path_length q - (distance (q ! (i - 1)) (q ! i) + distance (q ! j) (q ! (j + 1)))
       + (distance (q ! (i - 1)) (q ! j) + distance (q ! i) (q ! (j + 1)))"
proof -
  define P where "P = take i q"
  define M where "M = take (j + 1 - i) (drop i q)"
  define S where "S = drop (j + 1) q"
  have q: "q = P @ M @ S"
  proof -
    have e: "j + 1 - i + i = j + 1" using assms by simp
    have "drop (j + 1 - i) (drop i q) = drop (j + 1) q" by (simp only: drop_drop e)
    then have "M @ S = take (j + 1 - i) (drop i q) @ drop (j + 1 - i) (drop i q)"
      by (simp only: M_def S_def)
    then have "M @ S = drop i q" by (simp only: append_take_drop_id)
    then show ?thesis by (simp add: P_def)
  qed
  have Pne: "P \<noteq> []" and Mne: "M \<noteq> []" and Sne: "S \<noteq> []"
    using assms by (auto simp: P_def M_def S_def)
  have lP: "last P = q ! (i - 1)"
  proof -
    have "length P = i" using assms by (simp add: P_def)
    then have "last P = P ! (i - 1)" using Pne by (simp add: last_conv_nth)
    also have "\<dots> = q ! (i - 1)" using assms by (simp add: P_def)
    finally show ?thesis .
  qed
  have hM: "hd M = q ! i" using assms Mne by (simp add: M_def hd_conv_nth)
  have lM: "last M = q ! j"
  proof -
    have "length M = j + 1 - i" using assms by (simp add: M_def)
    then have "last M = M ! (j - i)" using Mne assms by (simp add: last_conv_nth)
    also have "\<dots> = q ! j" using assms by (simp add: M_def)
    finally show ?thesis .
  qed
  have hS: "hd S = q ! (j + 1)" using assms Sne by (simp add: S_def hd_conv_nth)
  have old: "path_length q = path_length P + distance (last P) (hd M) + path_length M
      + distance (last M) (hd S) + path_length S"
    unfolding q using Pne Mne Sne by (simp add: path_length_append)
  have "path_length (P @ rev M @ S) = path_length P + distance (last P) (hd (rev M))
      + path_length (rev M) + distance (last (rev M)) (hd S) + path_length S"
    using Pne Mne Sne by (simp add: path_length_append)
  also have "\<dots> = path_length P + distance (last P) (last M) + path_length M
      + distance (hd M) (hd S) + path_length S"
    using Mne by (simp add: path_length_rev hd_rev last_rev)
  finally show ?thesis using old unfolding P_def[symmetric] M_def[symmetric] S_def[symmetric]
    by (simp add: lP hM lM hS)
qed

lemma twoOpt_pairs_iff:
  "(i, j) \<in> set (twoOpt_pairs n) \<longleftrightarrow> 1 \<le> i \<and> i < n - 2 \<and> i < j \<and> j < n - 1"
  by (auto simp: twoOpt_pairs_def image_iff)

lemma valid_tour_mset:
  "mset t' = mset t \<Longrightarrow> valid_tour t points \<Longrightarrow> valid_tour t' points"
  unfolding valid_tour_def list_all_iff by (metis set_mset_mset)

lemma reverse_segment_mset:
  "i \<le> j \<Longrightarrow> mset (take i t @ rev (take (j + 1 - i) (drop i t)) @ drop (j + 1) t) = mset t"
proof -
  assume "i \<le> j"
  then have e: "j + 1 - i + i = j + 1" by simp
  have "drop (j + 1 - i) (drop i t) = drop (j + 1) t" by (simp only: drop_drop e)
  then have "mset (take (j + 1 - i) (drop i t)) + mset (drop (j + 1) t) = mset (drop i t)"
    by (metis append_take_drop_id mset_append)
  moreover have "mset (take i t) + mset (drop i t) = mset t"
    by (metis append_take_drop_id mset_append)
  ultimately show ?thesis by (simp add: add.assoc)
qed

text \<open>What one step of the inner loop keeps.\<close>

lemma twoOpt_swap_inv:
  assumes "valid_tour t points" "length t = n" "(i, j) \<in> set (twoOpt_pairs n)"
  shows "\<exists>t' b'. twoOpt_swap points (i, j) (t, b) = Inr (t', b') \<and>
      valid_tour t' points \<and> length t' = n \<and> mset t' = mset t \<and>
      path_length (map ((!) points) t') \<le> path_length (map ((!) points) t)"
proof -
  from assms(3) have ij: "1 \<le> i" "i < j" "j + 1 < n" by (auto simp: twoOpt_pairs_iff)
  let ?q = "map ((!) points) t"
  have v: "t ! (i - 1) < length points" "t ! i < length points" "t ! j < length points"
    "t ! (j + 1) < length points"
    using assms(1,2) ij by (simp_all add: valid_tour_nth)
  let ?new = "take i t @ rev (take (j + 1 - i) (drop i t)) @ drop (j + 1) t"
  have ms: "mset ?new = mset t" using ij by (intro reverse_segment_mset) simp
  have vn: "valid_tour ?new points" using ms assms(1) by (rule valid_tour_mset)
  have ln: "length ?new = n" using assms(2) ij by simp
  have cn: "calculateTourLength ?new points = Inr (length_from 0 (map ((!) points) ?new))"
    using vn by (rule calculateTourLength_valid)
  have mapnew: "map ((!) points) ?new = take i ?q @ rev (take (j + 1 - i) (drop i ?q)) @ drop (j + 1) ?q"
    by (simp add: take_map drop_map rev_map)
  have nth: "?q ! (i - 1) = points ! (t ! (i - 1))" "?q ! i = points ! (t ! i)"
    "?q ! j = points ! (t ! j)" "?q ! (j + 1) = points ! (t ! (j + 1))"
    using assms(2) ij by simp_all
  have len: "path_length (map ((!) points) ?new) =
     path_length ?q - (distance (points ! (t ! (i - 1))) (points ! (t ! i))
        + distance (points ! (t ! j)) (points ! (t ! (j + 1))))
       + (distance (points ! (t ! (i - 1))) (points ! (t ! j))
        + distance (points ! (t ! i)) (points ! (t ! (j + 1))))"
    unfolding mapnew nth[symmetric]
    using ij assms(2) by (intro reverse_segment_length) simp_all
  show ?thesis
  proof (cases "fl (distance (points ! (t ! (i - 1))) (points ! (t ! j))
          + distance (points ! (t ! i)) (points ! (t ! (j + 1))))
      < fl (distance (points ! (t ! (i - 1))) (points ! (t ! i))
          + distance (points ! (t ! j)) (points ! (t ! (j + 1))))")
    case True
    then have "twoOpt_swap points (i, j) (t, b) = Inr (?new, True)"
      using v cn by (simp add: twoOpt_swap_def point_at_def Let_def)
    moreover have "path_length (map ((!) points) ?new) \<le> path_length ?q"
      using len fl_less_imp_less[OF True] by linarith
    ultimately show ?thesis using vn ln ms by blast
  next
    case False
    then have "twoOpt_swap points (i, j) (t, b) = Inr (t, b)"
      using v by (simp add: twoOpt_swap_def point_at_def Let_def)
    then show ?thesis using assms(1,2) by simp
  qed
qed

lemma twoOpt_pass_inv:
  assumes "valid_tour t points" "length t = n" "set ps \<subseteq> set (twoOpt_pairs n)"
  shows "\<exists>t' b'. fold_err (twoOpt_swap points) ps (t, b) = Inr (t', b') \<and>
      valid_tour t' points \<and> length t' = n \<and> mset t' = mset t \<and>
      path_length (map ((!) points) t') \<le> path_length (map ((!) points) t)"
  using assms
proof (induction ps arbitrary: t b)
  case Nil
  then show ?case by simp
next
  case (Cons p ps)
  obtain i j where p: "p = (i, j)" by (cases p)
  then have "(i, j) \<in> set (twoOpt_pairs n)" using Cons.prems(3) by simp
  from twoOpt_swap_inv[OF Cons.prems(1,2) this, of b] obtain t1 b1 where
    s: "twoOpt_swap points (i, j) (t, b) = Inr (t1, b1)" "valid_tour t1 points" "length t1 = n"
      "mset t1 = mset t"
      "path_length (map ((!) points) t1) \<le> path_length (map ((!) points) t)" by blast
  have "set ps \<subseteq> set (twoOpt_pairs n)" using Cons.prems(3) by simp
  from Cons.IH[OF s(2,3) this, of b1] obtain t' b' where
    r: "fold_err (twoOpt_swap points) ps (t1, b1) = Inr (t', b')" "valid_tour t' points"
      "length t' = n" "mset t' = mset t1"
      "path_length (map ((!) points) t') \<le> path_length (map ((!) points) t1)" by blast
  have "fold_err (twoOpt_swap points) (p # ps) (t, b) = Inr (t', b')" using p s(1) r(1) by simp
  moreover have "mset t' = mset t" using r(4) s(4) by simp
  moreover have "path_length (map ((!) points) t') \<le> path_length (map ((!) points) t)"
    using r(5) s(5) by linarith
  ultimately show ?case using r(2,3) by blast
qed

lemma twoOpt_loop_inv:
  assumes "valid_tour t points" "length t = n"
  shows "\<exists>t'. twoOpt_loop points n k t = Inr t' \<and>
      valid_tour t' points \<and> mset t' = mset t \<and>
      path_length (map ((!) points) t') \<le> path_length (map ((!) points) t)"
  using assms
proof (induction k arbitrary: t)
  case 0
  then show ?case by simp
next
  case (Suc k)
  from twoOpt_pass_inv[OF Suc.prems order_refl, of False] obtain t1 b1 where
    s: "fold_err (twoOpt_swap points) (twoOpt_pairs n) (t, False) = Inr (t1, b1)"
      "valid_tour t1 points" "length t1 = n" "mset t1 = mset t"
      "path_length (map ((!) points) t1) \<le> path_length (map ((!) points) t)" by blast
  show ?case
  proof (cases b1)
    case True
    from Suc.IH[OF s(2,3)] obtain t' where
      r: "twoOpt_loop points n k t1 = Inr t'" "valid_tour t' points" "mset t' = mset t1"
        "path_length (map ((!) points) t') \<le> path_length (map ((!) points) t1)" by blast
    have "twoOpt_loop points n (Suc k) t = Inr t'" using s(1) True r(1) by simp
    moreover have "mset t' = mset t" using r(3) s(4) by simp
    moreover have "path_length (map ((!) points) t') \<le> path_length (map ((!) points) t)"
      using r(4) s(5) by linarith
    ultimately show ?thesis using r(2) by blast
  next
    case False
    then have "twoOpt_loop points n (Suc k) t = Inr t1" using s(1) by simp
    then show ?thesis using s by blast
  qed
qed

lemma twoOpt_inv:
  assumes "valid_tour t points"
  shows "\<exists>t'. twoOpt t points k = Inr t' \<and> valid_tour t' points \<and> mset t' = mset t \<and>
      path_length (map ((!) points) t') \<le> path_length (map ((!) points) t)"
proof (cases "length t < 4")
  case True
  then show ?thesis using assms by (simp add: twoOpt_def)
next
  case False
  then have "twoOpt t points k = twoOpt_loop points (length t) k t"
    using calculateTourLength_valid[OF assms] by (simp add: twoOpt_def)
  then show ?thesis using twoOpt_loop_inv[OF assms refl, of k] by simp
qed

lemma brute_fold_total:
  assumes "currentIndex < length points"
  shows "\<exists>r. fold_err
     (\<lambda>i nearest.
        if i \<in> set visited then Inr nearest
        else case point_at points currentIndex of
               Inl e \<Rightarrow> Inl e
             | Inr currentPoint \<Rightarrow> Inr (closer i (distance currentPoint (points ! i)) nearest))
     is acc = Inr r \<and> (r = None \<longleftrightarrow> acc = None \<and> set is \<subseteq> set visited)"
proof (induction "is" arbitrary: acc)
  case Nil
  then show ?case by simp
next
  case (Cons i "is")
  have cp: "point_at points currentIndex = Inr (points ! currentIndex)"
    using assms by (simp add: point_at_def)
  show ?case
  proof (cases "i \<in> set visited")
    case True
    then show ?thesis using Cons[of acc] by simp
  next
    case False
    have "closer i (distance (points ! currentIndex) (points ! i)) acc \<noteq> None"
      by (simp add: closer_def split: option.splits)
    then show ?thesis
      using Cons[of "closer i (distance (points ! currentIndex) (points ! i)) acc"] False cp
      by auto
  qed
qed

lemma nearest_brute_total:
  assumes "currentIndex < length points"
  shows "\<exists>r. nearest_brute points visited currentIndex = Inr r \<and>
     (r = None \<longleftrightarrow> {0..<length points} \<subseteq> set visited)"
  unfolding nearest_brute_def
  using brute_fold_total[OF assms, of visited "[0..<length points]" None] by simp

lemma nearest_brute_current:
  assumes "nearest_brute points visited currentIndex = Inr (Some c)"
  shows "currentIndex < length points"
proof (rule ccontr)
  assume n: "\<not> currentIndex < length points"
  have "\<And>acc. fold_err
     (\<lambda>i nearest.
        if i \<in> set visited then Inr nearest
        else case point_at points currentIndex of
               Inl e \<Rightarrow> Inl e
             | Inr currentPoint \<Rightarrow> Inr (closer i (distance currentPoint (points ! i)) nearest))
     is acc = Inr r \<Longrightarrow> r = acc" for "is" r
    by (induction "is") (use n in \<open>auto simp: point_at_def split: if_splits\<close>)
  from this[OF assms[unfolded nearest_brute_def]] show False by simp
qed

lemma gridSize_ge_1: "1 \<le> calculateOptimalGridSize points"
  by (simp add: calculateOptimalGridSize_def Let_def)

lemma nearest_spatial_total:
  "currentIndex < length points \<Longrightarrow> 0 < searchRadius \<Longrightarrow>
   \<exists>r. nearest_spatial points gridSize maxRadius visited currentIndex searchRadius = Inr r"
proof (induction points gridSize maxRadius visited currentIndex searchRadius
    rule: nearest_spatial.induct)
  case (1 points gridSize maxRadius visited currentIndex searchRadius)
  have cp: "point_at points currentIndex = Inr (points ! currentIndex)"
    using "1.prems" by (simp add: point_at_def)
  show ?case
  proof (cases "searchRadius \<le> maxRadius")
    case False
    then show ?thesis by (subst nearest_spatial.simps) simp
  next
    case le: True
    show ?thesis
    proof (cases "nearest_candidate visited
        (findInRadius points gridSize (points ! currentIndex) searchRadius) None")
      case None
      have pos: "\<not> searchRadius \<le> 0" using "1.prems" by simp
      from "1.IH"[OF le cp None pos] "1.prems" obtain r where
        "nearest_spatial points gridSize maxRadius visited currentIndex (searchRadius * 2) = Inr r"
        by auto
      then show ?thesis using le cp None pos by (subst nearest_spatial.simps) simp
    next
      case (Some c)
      then show ?thesis using le cp by (subst nearest_spatial.simps) simp
    qed
  qed
qed

lemma nearest_spatial_current:
  "nearest_spatial points gridSize maxRadius visited currentIndex searchRadius = Inr (Some c)
   \<Longrightarrow> currentIndex < length points"
proof (rule ccontr)
  assume a: "nearest_spatial points gridSize maxRadius visited currentIndex searchRadius = Inr (Some c)"
    and n: "\<not> currentIndex < length points"
  then show False
    by (subst (asm) nearest_spatial.simps) (auto simp: point_at_def split: if_splits)
qed

lemma find_nearest_current:
  "find_nearest points visited currentIndex = Inr (Some c) \<Longrightarrow> currentIndex < length points"
  unfolding find_nearest_def Let_def
  by (auto split: if_splits dest: nearest_spatial_current nearest_brute_current)

lemma find_nearest_total:
  assumes "currentIndex < length points"
  shows "\<exists>r. find_nearest points visited currentIndex = Inr r \<and>
     (length points \<le> 1000 \<longrightarrow> (r = None \<longleftrightarrow> {0..<length points} \<subseteq> set visited))"
proof (cases "length points > 1000")
  case True
  have "0 < calculateOptimalGridSize points" using gridSize_ge_1[of points] by linarith
  from nearest_spatial_total[OF assms this] show ?thesis
    using True by (simp add: find_nearest_def)
next
  case False
  then show ?thesis using nearest_brute_total[OF assms] by (simp add: find_nearest_def)
qed

lemma valid_tour_append:
  "valid_tour (xs @ ys) points \<longleftrightarrow> valid_tour xs points \<and> valid_tour ys points"
  by (simp add: valid_tour_def)

lemma valid_tour_subset: "valid_tour tour points \<longleftrightarrow> set tour \<subseteq> {0..<length points}"
  by (auto simp: valid_tour_def list_all_iff)

lemma nn_loop_total:
  assumes "valid_tour tour points" "currentIndex < length points"
  shows "\<exists>tour'. nn_loop points tour currentIndex = Inr tour' \<and> valid_tour tour' points \<and>
      (distinct tour \<longrightarrow> distinct tour') \<and>
      (length points \<le> 1000 \<longrightarrow> {0..<length points} \<subseteq> set tour')"
  using assms
proof (induction "length points - card (set tour)" arbitrary: tour currentIndex rule: less_induct)
  case less
  have sub: "set tour \<subseteq> {0..<length points}" using less.prems(1) by (simp add: valid_tour_subset)
  show ?case
  proof (cases "card (set tour) < length points")
    case False
    have "card (set tour) \<le> card {0..<length points}" using sub by (intro card_mono) auto
    then have "card (set tour) = card {0..<length points}" using False by simp
    then have "set tour = {0..<length points}" using sub by (intro card_subset_eq) auto
    moreover have "nn_loop points tour currentIndex = Inr tour"
      using False by (subst nn_loop.simps) simp
    ultimately show ?thesis using less.prems(1) by simp
  next
    case c: True
    from find_nearest_total[OF less.prems(2), of tour] obtain r where
      r: "find_nearest points tour currentIndex = Inr r"
      and rn: "length points \<le> 1000 \<longrightarrow> (r = None \<longleftrightarrow> {0..<length points} \<subseteq> set tour)"
      by blast
    show ?thesis
    proof (cases r)
      case None
      then have "nn_loop points tour currentIndex = Inr tour"
        using c r by (subst nn_loop.simps) simp
      then show ?thesis using less.prems(1) rn None by simp
    next
      case (Some a)
      obtain k d where a: "a = (k, d)" by (cases a)
      from find_nearest_unvisited[of points tour currentIndex k d] r Some a
      have k: "k \<notin> set tour" "k < length points" by auto
      have v: "valid_tour (tour @ [k]) points"
        using less.prems(1) k(2) by (simp add: valid_tour_def)
      have "card (set (tour @ [k])) = Suc (card (set tour))" using k(1) by simp
      then have m: "length points - card (set (tour @ [k])) < length points - card (set tour)"
        using c by simp
      from less.hyps[OF m v k(2)] obtain tour' where
        t: "nn_loop points (tour @ [k]) k = Inr tour'" "valid_tour tour' points"
          "distinct (tour @ [k]) \<longrightarrow> distinct tour'"
          "length points \<le> 1000 \<longrightarrow> {0..<length points} \<subseteq> set tour'" by blast
      have "nn_loop points tour currentIndex = Inr tour'"
        using c r Some a t(1) by (subst nn_loop.simps) simp
      moreover have "distinct tour \<longrightarrow> distinct tour'" using t(3) k(1) by simp
      ultimately show ?thesis using t(2,4) by blast
    qed
  qed
qed

lemma nn_loop_shape:
  "nn_loop points tour currentIndex = Inr tour' \<Longrightarrow>
   \<exists>rest. tour' = tour @ rest \<and> valid_tour rest points \<and>
     (rest \<noteq> [] \<longrightarrow> currentIndex < length points)"
proof (induction "length points - card (set tour)" arbitrary: tour currentIndex rule: less_induct)
  case less
  show ?case
  proof (cases "card (set tour) < length points")
    case False
    then have "nn_loop points tour currentIndex = Inr tour" by (subst nn_loop.simps) simp
    then have "tour' = tour @ []" using less.prems by simp
    then show ?thesis by (metis list.pred_inject(1) valid_tour_def)
  next
    case c: True
    show ?thesis
    proof (cases "find_nearest points tour currentIndex")
      case (Inl e)
      then have "nn_loop points tour currentIndex = Inl e"
        using c by (subst nn_loop.simps) simp
      then show ?thesis using less.prems by simp
    next
      case (Inr r)
      show ?thesis
      proof (cases r)
        case None
        then have "nn_loop points tour currentIndex = Inr tour"
          using c Inr by (subst nn_loop.simps) simp
        then have "tour' = tour @ []" using less.prems by simp
        then show ?thesis by (metis list.pred_inject(1) valid_tour_def)
      next
        case (Some a)
        obtain k d where a: "a = (k, d)" by (cases a)
        have f: "find_nearest points tour currentIndex = Inr (Some (k, d))"
          using Inr Some a by simp
        from find_nearest_unvisited[OF f] have k: "k \<notin> set tour" "k < length points" by auto
        from find_nearest_current[OF f] have cur: "currentIndex < length points" .
        have "card (set (tour @ [k])) = Suc (card (set tour))" using k(1) by simp
        then have m: "length points - card (set (tour @ [k])) < length points - card (set tour)"
          using c by simp
        have "nn_loop points tour currentIndex = nn_loop points (tour @ [k]) k"
          using c f by (subst nn_loop.simps) simp
        then have "nn_loop points (tour @ [k]) k = Inr tour'" using less.prems by simp
        from less.hyps[OF m this] obtain rest where
          "tour' = (tour @ [k]) @ rest" "valid_tour rest points" by blast
        then have "tour' = tour @ (k # rest) \<and> valid_tour (k # rest) points"
          using k(2) by (simp add: valid_tour_def)
        then show ?thesis using cur by blast
      qed
    qed
  qed
qed

lemma mset_permutation:
  "mset t' = mset t \<Longrightarrow> is_permutation t n \<Longrightarrow> is_permutation t' n"
  unfolding is_permutation_def by (metis mset_eq_imp_distinct_iff mset_eq_setD)

lemma nearestNeighbor_long:
  "2 \<le> length points \<Longrightarrow> nearestNeighbor points startIndex =
     (case nn_loop points [startIndex] startIndex of
        Inl e \<Rightarrow> Inl e
      | Inr tour \<Rightarrow>
          (case calculateTourLength tour points of
             Inl e \<Rightarrow> Inl e
           | Inr tourLength \<Rightarrow> Inr tour))"
  by (cases points) (auto simp: nearestNeighbor_def)

lemma nearestNeighbor_returns:
  assumes "startIndex < length points"
  shows "\<exists>tour. nearestNeighbor points startIndex = Inr tour \<and> valid_tour tour points \<and>
      (length points \<le> 1000 \<longrightarrow> is_permutation tour (length points))"
proof -
  consider "length points = 1" | "2 \<le> length points" using assms by linarith
  then show ?thesis
  proof cases
    case 1
    then show ?thesis
      by (auto simp: nearestNeighbor_def valid_tour_def is_permutation_def)
  next
    case 2
    have "valid_tour [startIndex] points" using assms by (simp add: valid_tour_def)
    from nn_loop_total[OF this assms] obtain tour where
      t: "nn_loop points [startIndex] startIndex = Inr tour" "valid_tour tour points"
        "distinct tour" "length points \<le> 1000 \<longrightarrow> {0..<length points} \<subseteq> set tour"
      by auto
    have "nearestNeighbor points startIndex = Inr tour"
      using t(1) calculateTourLength_valid[OF t(2)] by (simp add: nearestNeighbor_long[OF 2])
    moreover have "length points \<le> 1000 \<longrightarrow> is_permutation tour (length points)"
      using t(2,3,4) by (auto simp: is_permutation_def valid_tour_subset)
    ultimately show ?thesis using t(2) by blast
  qed
qed

lemma nearestNeighbor_valid:
  assumes "nearestNeighbor points startIndex = Inr tour"
  shows "valid_tour tour points \<or> length tour < 2"
proof -
  consider "length points = 0" | "length points = 1" | "2 \<le> length points" by linarith
  then show ?thesis
  proof cases
    case 1
    then show ?thesis using assms by (auto simp: nearestNeighbor_def valid_tour_def)
  next
    case 2
    then show ?thesis using assms by (auto simp: nearestNeighbor_def valid_tour_def)
  next
    case 3
    then have "nn_loop points [startIndex] startIndex = Inr tour"
      using assms by (auto simp: nearestNeighbor_long split: sum.splits)
    from nn_loop_shape[OF this] obtain rest where
      r: "tour = [startIndex] @ rest" "valid_tour rest points"
        "rest \<noteq> [] \<longrightarrow> startIndex < length points" by blast
    show ?thesis
    proof (cases "rest = []")
      case True
      then show ?thesis using r(1) by simp
    next
      case False
      then show ?thesis using r by (simp add: valid_tour_def)
    qed
  qed
qed

lemma nearest_candidate_all_visited:
  "\<forall>c\<in>set candidates. fst c \<in> set visited \<Longrightarrow>
   nearest_candidate visited candidates acc = acc"
  unfolding nearest_candidate_def by (induction candidates arbitrary: acc) simp_all

lemma findInRadius_within:
  "c \<in> set (findInRadius points gridSize p radius) \<Longrightarrow>
   fst c < length points \<and> distance p (points ! fst c) \<le> radius"
  by (auto simp: findInRadius_def grid_get_def Let_def)

lemma candidates_none:
  assumes "\<forall>i<length points. i \<notin> set visited \<longrightarrow> radius < distance p (points ! i)"
  shows "nearest_candidate visited (findInRadius points gridSize p radius) None = None"
proof (rule nearest_candidate_all_visited, rule ballI)
  fix c assume "c \<in> set (findInRadius points gridSize p radius)"
  from findInRadius_within[OF this] assms show "fst c \<in> set visited" by force
qed

lemma nearest_spatial_none:
  assumes "currentIndex < length points"
  shows "0 < r \<Longrightarrow> maxRadius < r * 2 ^ k \<Longrightarrow>
    (\<forall>j<k. nearest_candidate visited
        (findInRadius points gridSize (points ! currentIndex) (r * 2 ^ j)) None = None) \<Longrightarrow>
    nearest_spatial points gridSize maxRadius visited currentIndex r = Inr None"
proof (induction k arbitrary: r)
  case 0
  then show ?case by (subst nearest_spatial.simps) simp
next
  case (Suc k)
  have cp: "point_at points currentIndex = Inr (points ! currentIndex)"
    using assms by (simp add: point_at_def)
  show ?case
  proof (cases "r \<le> maxRadius")
    case False
    then show ?thesis by (subst nearest_spatial.simps) simp
  next
    case True
    have n0: "nearest_candidate visited
        (findInRadius points gridSize (points ! currentIndex) r) None = None"
      using Suc.prems(3)[rule_format, of 0] by simp
    have "\<forall>j<k. nearest_candidate visited
        (findInRadius points gridSize (points ! currentIndex) (r * 2 * 2 ^ j)) None = None"
    proof (intro allI impI)
      fix j assume "j < k"
      then have "Suc j < Suc k" by simp
      from Suc.prems(3)[rule_format, OF this]
      show "nearest_candidate visited
        (findInRadius points gridSize (points ! currentIndex) (r * 2 * 2 ^ j)) None = None"
        by (simp add: mult.assoc)
    qed
    moreover have "0 < r * 2" using Suc.prems(1) by simp
    moreover have "maxRadius < r * 2 * 2 ^ k" using Suc.prems(2) by (simp add: mult.assoc)
    ultimately have "nearest_spatial points gridSize maxRadius visited currentIndex (r * 2) = Inr None"
      by (intro Suc.IH)
    then show ?thesis using True cp n0 Suc.prems(1) by (subst nearest_spatial.simps) simp
  qed
qed

lemma fold_max_ge: "a \<le> fold (\<lambda>p m. max m (f p)) xs (a::real)"
proof (induction xs arbitrary: a)
  case Nil
  then show ?case by simp
next
  case (Cons x xs)
  have "a \<le> max a (f x)" by simp
  also have "\<dots> \<le> fold (\<lambda>p m. max m (f p)) xs (max a (f x))" by (rule Cons.IH)
  finally show ?case by simp
qed

lemma fold_max_mem: "x \<in> set xs \<Longrightarrow> f x \<le> fold (\<lambda>p m. max m (f p)) xs (a::real)"
proof (induction xs arbitrary: a)
  case Nil
  then show ?case by simp
next
  case (Cons y xs)
  show ?case
  proof (cases "x = y")
    case True
    have "f y \<le> max a (f y)" by simp
    also have "\<dots> \<le> fold (\<lambda>p m. max m (f p)) xs (max a (f y))" by (rule fold_max_ge)
    finally show ?thesis using True by simp
  next
    case False
    then show ?thesis using Cons by simp
  qed
qed

lemma fold_max_le:
  "a \<le> b \<Longrightarrow> \<forall>x\<in>set xs. f x \<le> b \<Longrightarrow> fold (\<lambda>p m. max m (f p)) xs (a::real) \<le> b"
  by (induction xs arbitrary: a) simp_all

lemma fold_min_le: "fold (\<lambda>p m. min m (f p)) xs (a::real) \<le> a"
proof (induction xs arbitrary: a)
  case Nil
  then show ?case by simp
next
  case (Cons x xs)
  have "fold (\<lambda>p m. min m (f p)) xs (min a (f x)) \<le> min a (f x)" by (rule Cons.IH)
  then show ?case by simp
qed

lemma fold_min_ge:
  "b \<le> a \<Longrightarrow> \<forall>x\<in>set xs. b \<le> f x \<Longrightarrow> b \<le> fold (\<lambda>p m. min m (f p)) xs (a::real)"
  by (induction xs arbitrary: a) simp_all

lemma far_corner_length: "length far_corner_points = 1001"
  by (simp add: far_corner_points_def)

lemma far_corner_hd: "hd far_corner_points = \<lparr>px = 0, py = 0\<rparr>"
  "far_corner_points ! 0 = \<lparr>px = 0, py = 0\<rparr>"
  by (simp_all add: far_corner_points_def)

lemma far_corner_block:
  assumes "p \<in> set (tl far_corner_points)"
  shows "2000 \<le> px p \<and> px p \<le> 2310 \<and> 2000 \<le> py p \<and> py p \<le> 2310"
proof -
  from assms obtain k where k: "k < 1000"
    and p: "p = \<lparr>px = 2000 + 10 * real (k mod 32), py = 2000 + 10 * real (k div 32)\<rparr>"
    by (auto simp: far_corner_points_def)
  have "k mod 32 \<le> 31" by (simp add: Suc_leI less_Suc_eq_le[symmetric])
  moreover have "k div 32 \<le> 31" using k by simp
  ultimately have "real (k mod 32) \<le> 31" "real (k div 32) \<le> 31" by linarith+
  then show ?thesis unfolding p by simp
qed

lemma far_corner_right: "\<lparr>px = 2310, py = 2000\<rparr> \<in> set (tl far_corner_points)"
proof -
  have "(31::nat) \<in> set [0..<1000]" by simp
  then have "\<lparr>px = 2000 + 10 * real (31 mod 32), py = 2000 + 10 * real (31 div 32)\<rparr>
      \<in> set (tl far_corner_points)"
    unfolding far_corner_points_def list.sel set_map by (rule imageI)
  then show ?thesis by simp
qed

lemma far_corner_bottom: "\<lparr>px = 2000, py = 2310\<rparr> \<in> set (tl far_corner_points)"
proof -
  have "(992::nat) \<in> set [0..<1000]" by simp
  then have "\<lparr>px = 2000 + 10 * real (992 mod 32), py = 2000 + 10 * real (992 div 32)\<rparr>
      \<in> set (tl far_corner_points)"
    unfolding far_corner_points_def list.sel set_map by (rule imageI)
  then show ?thesis by simp
qed

lemma far_corner_set: "set far_corner_points = insert \<lparr>px = 0, py = 0\<rparr> (set (tl far_corner_points))"
  by (simp add: far_corner_points_def)

lemma far_corner_bounds:
  "fold (\<lambda>p m. min m (px p)) (tl far_corner_points) 0 = 0"
  "fold (\<lambda>p m. min m (py p)) (tl far_corner_points) 0 = 0"
  "fold (\<lambda>p m. max m (px p)) (tl far_corner_points) 0 = 2310"
  "fold (\<lambda>p m. max m (py p)) (tl far_corner_points) 0 = 2310"
proof -
  have b: "\<forall>p\<in>set (tl far_corner_points). 0 \<le> px p \<and> px p \<le> 2310 \<and> 0 \<le> py p \<and> py p \<le> 2310"
    using far_corner_block by force
  show "fold (\<lambda>p m. min m (px p)) (tl far_corner_points) 0 = 0"
    using fold_min_le[of px "tl far_corner_points" 0] fold_min_ge[of 0 0 "tl far_corner_points" px] b
    by force
  show "fold (\<lambda>p m. min m (py p)) (tl far_corner_points) 0 = 0"
    using fold_min_le[of py "tl far_corner_points" 0] fold_min_ge[of 0 0 "tl far_corner_points" py] b
    by force
  show "fold (\<lambda>p m. max m (px p)) (tl far_corner_points) 0 = 2310"
    using fold_max_le[of 0 2310 "tl far_corner_points" px] fold_max_mem[OF far_corner_right, of px 0] b
    by force
  show "fold (\<lambda>p m. max m (py p)) (tl far_corner_points) 0 = 2310"
    using fold_max_le[of 0 2310 "tl far_corner_points" py] fold_max_mem[OF far_corner_bottom, of py 0] b
    by force
qed

lemma far_corner_gridSize:
  "calculateOptimalGridSize far_corner_points = 2310 / sqrt 1001"
proof -
  have "sqrt 1001 \<le> 2310" by (intro real_le_lsqrt) auto
  then have "1 \<le> 2310 / sqrt 1001" by simp
  then show ?thesis
    by (simp add: calculateOptimalGridSize_def far_corner_length far_corner_hd far_corner_bounds
        Let_def)
qed

lemma far_corner_maxRadius: "maxSearchRadius far_corner_points = 4620"
proof -
  have "far_corner_points = hd far_corner_points # tl far_corner_points"
    by (simp add: far_corner_points_def)
  then have "\<And>f. fold (\<lambda>p m. max m (f p)) far_corner_points (0::real)
      = fold (\<lambda>p m. max m (f p)) (tl far_corner_points) (max 0 (f (hd far_corner_points)))"
    by (metis fold_simps(2))
  then show ?thesis
    by (simp add: maxSearchRadius_def far_corner_hd far_corner_bounds)
qed

lemma far_corner_distance:
  assumes "i < length far_corner_points" "i \<notin> set [0]"
  shows "2828 < distance (far_corner_points ! 0) (far_corner_points ! i)"
proof -
  from assms have "0 < i" "i - 1 < length (tl far_corner_points)" by (simp_all add: far_corner_length)
  then have "far_corner_points ! i \<in> set (tl far_corner_points)"
    by (metis Suc_pred' far_corner_length assms(1) length_greater_0_conv list.size(3)
        nth_mem nth_tl zero_neq_numeral)
  from far_corner_block[OF this] have
    x: "2000 \<le> px (far_corner_points ! i)" and y: "2000 \<le> py (far_corner_points ! i)" by auto
  define dx where "dx = fl (0 - px (far_corner_points ! i))"
  define dy where "dy = fl (0 - py (far_corner_points ! i))"
  have f2000: "fl 2000 = 2000" by (rule fl_numeral) simp
  have "2000 \<le> fl (px (far_corner_points ! i))" using f2000 x by (rule fl_ge)
  then have dx: "dx \<le> - 2000" by (simp add: dx_def fl_minus)
  have "2000 \<le> fl (py (far_corner_points ! i))" using f2000 y by (rule fl_ge)
  then have dy: "dy \<le> - 2000" by (simp add: dy_def fl_minus)
  have sq: "4000000 \<le> a * a" if "a \<le> - 2000" for a :: real
  proof -
    have "2000 * 2000 \<le> (- a) * (- a)" using that by (intro mult_mono) auto
    then show ?thesis by simp
  qed
  have f4: "fl 4000000 = 4000000" by (rule fl_numeral) simp
  have "4000000 \<le> fl (dx * dx)" "4000000 \<le> fl (dy * dy)"
    using sq[OF dx] sq[OF dy] f4 by (auto intro: fl_ge)
  then have s: "8000000 \<le> fl (dx * dx) + fl (dy * dy)" by linarith
  have f8: "fl 8000000 = 8000000" by (rule fl_numeral) simp
  have s8: "8000000 \<le> fl (fl (dx * dx) + fl (dy * dy))" using f8 s by (rule fl_ge)
  have "(11313 / 4)\<^sup>2 \<le> fl (fl (dx * dx) + fl (dy * dy))"
    using s8 by (simp add: power2_eq_square)
  then have r: "11313 / 4 \<le> sqrt (fl (fl (dx * dx) + fl (dy * dy)))"
    by (intro real_le_rsqrt)
  have "fl (of_int 11313 * 2 powi (- 2)) = of_int 11313 * 2 powi (- 2)"
    by (rule fl_exact) simp_all
  then have fq: "fl (11313 / 4) = 11313 / 4" by simp
  have "11313 / 4 \<le> fl (sqrt (fl (fl (dx * dx) + fl (dy * dy))))" using fq r by (rule fl_ge)
  then show ?thesis by (simp add: distance_def far_corner_hd Let_def dx_def dy_def)
qed

lemma far_corner_search:
  "find_nearest far_corner_points [0] 0 = Inr None"
proof -
  define g where "g = 2310 / sqrt 1001"
  have s1: "31 < sqrt 1001" by (intro real_less_rsqrt) simp
  have s2: "sqrt 1001 < 32" by (intro real_less_lsqrt) simp_all
  have g1: "2310 / 32 < g" unfolding g_def using s1 s2 by (intro divide_strict_left_mono) auto
  have g2: "g < 2310 / 31" unfolding g_def using s1 s2 by (intro divide_strict_left_mono) auto
  have gpos: "0 < g" using g1 by simp
  have top: "(4620::real) < g * 2 ^ 6" using g1 by simp
  have none: "\<forall>j<6. nearest_candidate [0]
      (findInRadius far_corner_points g (far_corner_points ! 0) (g * 2 ^ j)) None = None"
  proof (intro allI impI)
    fix j :: nat assume j: "j < 6"
    then have "(2::real) ^ j \<le> 2 ^ 5" by (intro power_increasing) auto
    then have "g * 2 ^ j \<le> g * 2 ^ 5" using gpos by (intro mult_left_mono) auto
    then have r: "g * 2 ^ j < 2828" using g2 by simp
    show "nearest_candidate [0]
      (findInRadius far_corner_points g (far_corner_points ! 0) (g * 2 ^ j)) None = None"
    proof (rule candidates_none, intro allI impI)
      fix i assume "i < length far_corner_points" "i \<notin> set [0]"
      from far_corner_distance[OF this] r
      show "g * 2 ^ j < distance (far_corner_points ! 0) (far_corner_points ! i)" by linarith
    qed
  qed
  have "nearest_spatial far_corner_points g 4620 [0] 0 g = Inr None"
    by (rule nearest_spatial_none[OF _ gpos top none]) (simp add: far_corner_length)
  then show ?thesis
    by (simp add: find_nearest_def far_corner_length far_corner_gridSize far_corner_maxRadius g_def)
qed

lemma far_corner_tour: "nearestNeighbor far_corner_points 0 = Inr [0]"
proof -
  have "nn_loop far_corner_points [0] 0 = Inr [0]"
    by (subst nn_loop.simps) (simp add: far_corner_search far_corner_length)
  then show ?thesis
    by (simp add: nearestNeighbor_long far_corner_length calculateTourLength_def)
qed

text \<open>
  Up to 1000 points, where the nearest point is looked for by brute force, and with a start
  index that is an index of the points, the tour of \<open>solveTSP\<close> visits every index
  exactly once, with or without the 2-opt step.
\<close>

lemma solveTSP_small_permutation:
  assumes "startIndex < length points" "length points \<le> 1000"
  shows "\<exists>tour. solveTSP points startIndex optimize maxIterations = Inr tour \<and>
     valid_tour tour points \<and> is_permutation tour (length points)"
proof -
  from nearestNeighbor_returns[OF assms(1)] assms(2) obtain tour0 where
    t0: "nearestNeighbor points startIndex = Inr tour0" "valid_tour tour0 points"
      "is_permutation tour0 (length points)" by blast
  from twoOpt_inv[OF t0(2), of maxIterations] obtain tour1 where
    t1: "twoOpt tour0 points maxIterations = Inr tour1" "valid_tour tour1 points"
      "mset tour1 = mset tour0" by blast
  have "is_permutation tour1 (length points)" using t1(3) t0(3) by (rule mset_permutation)
  then show ?thesis using t0 t1 by (auto simp: solveTSP_def)
qed


text \<open>
  The value of \<open>calculateTourLength\<close> against the exact sum of the edge lengths: every one
  of its additions is off by a factor of at most \<open>1 \<plusminus> 2^-53\<close>, and by \<open>2^-1075\<close>
  among the subnormal numbers.
\<close>

lemma fl_upper_factor:
  assumes "0 \<le> x"
  shows "fl x \<le> (1 + 1 / 9007199254740992) * (x + 2 powi (- 1075))"
proof -
  have "\<bar>fl x - x\<bar> \<le> \<bar>x\<bar> / 9007199254740992 + 2 powi (- 1075)" by (rule fl_error_add)
  then have "fl x \<le> x + x / 9007199254740992 + 2 powi (- 1075)" using assms by simp
  also have "\<dots> \<le> (1 + 1 / 9007199254740992) * (x + 2 powi (- 1075))"
    by (simp add: algebra_simps)
  finally show ?thesis .
qed

lemma fl_lower_factor:
  assumes "0 \<le> x"
  shows "(1 - 1 / 9007199254740992) * x - 2 powi (- 1075) \<le> fl x"
proof -
  have "\<bar>fl x - x\<bar> \<le> \<bar>x\<bar> / 9007199254740992 + 2 powi (- 1075)" by (rule fl_error_add)
  then have "x - x / 9007199254740992 - 2 powi (- 1075) \<le> fl x" using assms by simp
  then show ?thesis by (simp add: algebra_simps)
qed

lemma length_from_nonneg: "0 \<le> acc \<Longrightarrow> 0 \<le> length_from acc xs"
proof (induction xs arbitrary: acc)
  case Nil
  then show ?case by simp
next
  case (Cons x xs)
  note IH = Cons.IH
  show ?case
  proof (cases xs)
    case Nil
    then show ?thesis using Cons.prems by simp
  next
    case (Cons b rest)
    have "0 \<le> fl (acc + distance x b)"
      using Cons.prems distance_nonneg[of x b] by (intro fl_nonneg) simp
    from IH[OF this] show ?thesis using Cons by simp
  qed
qed

lemma length_from_upper:
  assumes "0 \<le> acc"
  shows "length_from acc xs \<le> (1 + 1 / 9007199254740992) ^ (length xs - 1)
     * (acc + path_length xs + real (length xs - 1) * 2 powi (- 1075))"
  using assms
proof (induction xs arbitrary: acc)
  case Nil
  then show ?case by simp
next
  case (Cons x xs)
  note IH = Cons.IH
  show ?case
  proof (cases xs)
    case Nil
    then show ?thesis by simp
  next
    case (Cons b rest)
    define r :: real where "r = 1 + 1 / 9007199254740992"
    define h :: real where "h = 2 powi (- 1075)"
    define d where "d = distance x b"
    define k where "k = length rest"
    define P where "P = path_length (b # rest)"
    have r1: "1 \<le> r" and r0: "0 \<le> r" by (simp_all add: r_def)
    have h0: "0 \<le> h" by (simp add: h_def)
    have d0: "0 \<le> d" by (simp add: d_def distance_nonneg)
    have P0: "0 \<le> P" by (simp add: P_def path_length_nonneg)
    have a0: "0 \<le> fl (acc + d)" using Cons.prems d0 by (intro fl_nonneg) simp
    have a1: "fl (acc + d) \<le> r * (acc + d + h)"
      unfolding r_def h_def using Cons.prems d0 by (intro fl_upper_factor) simp
    have "length_from acc (x # xs) = length_from (fl (acc + d)) (b # rest)"
      by (simp add: Cons d_def)
    also have "\<dots> \<le> r ^ k * (fl (acc + d) + P + real k * h)"
      using IH[OF a0] by (simp add: Cons r_def h_def k_def P_def)
    also have "\<dots> \<le> r ^ k * (r * (acc + d + h) + r * (P + real k * h))"
    proof (intro mult_left_mono)
      have "P + real k * h \<le> r * (P + real k * h)"
        using r1 P0 h0 by (intro mult_right_mono[of 1 r, simplified]) simp_all
      then show "fl (acc + d) + P + real k * h \<le> r * (acc + d + h) + r * (P + real k * h)"
        using a1 by linarith
      show "0 \<le> r ^ k" using r0 by simp
    qed
    also have "\<dots> = r ^ Suc k * (acc + (d + P) + real (Suc k) * h)"
      by (simp add: algebra_simps)
    finally show ?thesis by (simp add: Cons r_def h_def k_def P_def d_def)
  qed
qed

lemma length_from_lower:
  assumes "0 \<le> acc"
  shows "(1 - 1 / 9007199254740992) ^ (length xs - 1) * (acc + path_length xs)
     - real (length xs - 1) * 2 powi (- 1075) \<le> length_from acc xs"
  using assms
proof (induction xs arbitrary: acc)
  case Nil
  then show ?case by simp
next
  case (Cons x xs)
  note IH = Cons.IH
  show ?case
  proof (cases xs)
    case Nil
    then show ?thesis by simp
  next
    case (Cons b rest)
    define s :: real where "s = 1 - 1 / 9007199254740992"
    define h :: real where "h = 2 powi (- 1075)"
    define d where "d = distance x b"
    define k where "k = length rest"
    define P where "P = path_length (b # rest)"
    have s1: "s \<le> 1" and s0: "0 \<le> s" by (simp_all add: s_def)
    have sk0: "0 \<le> s ^ k" using s0 by simp
    have sk1: "s ^ k \<le> 1" using s0 s1 by (simp add: power_le_one)
    have h0: "0 \<le> h" by (simp add: h_def)
    have d0: "0 \<le> d" by (simp add: d_def distance_nonneg)
    have P0: "0 \<le> P" by (simp add: P_def path_length_nonneg)
    have a0: "0 \<le> fl (acc + d)" using Cons.prems d0 by (intro fl_nonneg) simp
    have a1: "s * (acc + d) - h \<le> fl (acc + d)"
      unfolding s_def h_def using Cons.prems d0 by (intro fl_lower_factor) simp
    have "s * P \<le> 1 * P" using s1 P0 by (intro mult_right_mono)
    then have e1: "s ^ k * (s * P) \<le> s ^ k * P"
      using sk0 by (intro mult_left_mono) simp_all
    have "s ^ k * h \<le> 1 * h" using sk1 h0 by (intro mult_right_mono)
    then have e2: "s ^ k * h \<le> h" by simp
    have "s ^ Suc k * (acc + (d + P)) - real (Suc k) * h
        = s ^ k * (s * (acc + d) - h) + s ^ k * (s * P) + s ^ k * h - h - real k * h"
      by (simp add: algebra_simps)
    also have "\<dots> \<le> s ^ k * (s * (acc + d) - h) + s ^ k * P - real k * h"
      using e1 e2 by linarith
    also have "\<dots> \<le> s ^ k * fl (acc + d) + s ^ k * P - real k * h"
      using a1 sk0 by (simp add: mult_left_mono)
    also have "\<dots> = s ^ k * (fl (acc + d) + P) - real k * h" by (simp add: algebra_simps)
    also have "\<dots> \<le> length_from (fl (acc + d)) (b # rest)"
      using IH[OF a0] by (simp add: Cons s_def h_def k_def P_def)
    also have "\<dots> = length_from acc (x # xs)" by (simp add: Cons d_def)
    finally show ?thesis by (simp add: Cons s_def h_def k_def P_def d_def)
  qed
qed

text \<open>
  Claim C7, amended. For every list of at least 4 points whose coordinates are of a
  magnitude at which no operation overflows: with a start index that is an index of the
  points, \<open>nearestNeighbor\<close> returns a tour of indices of the points. And for every tour
  \<open>tour0\<close> of indices of the points, in particular that one, \<open>twoOpt\<close> returns a tour
  \<open>tour1\<close> with the same entries, and \<open>calculateTourLength\<close> computes the lengths \<open>l0\<close> and
  \<open>l1\<close> of both. The edge lengths of \<open>tour1\<close>, as the program computes them, added up
  exactly, are not more than those of \<open>tour0\<close>; and \<open>l1\<close> is above \<open>l0\<close> by at most the
  rounding of the additions of \<open>calculateTourLength\<close>: for a tour of \<open>n\<close> entries,
  \<open>(1 - 2^-53)^(n-1) l1 \<le> (1 + 2^-53)^(n-1) (l0 + 2 (n-1) 2^-1075)\<close>.
\<close>


theorem twoOpt_length_up_to_rounding:
  assumes "4 \<le> length points" "in_range points"
  shows "(startIndex < length points \<longrightarrow>
            (\<exists>tour0. nearestNeighbor points startIndex = Inr tour0 \<and> valid_tour tour0 points)) \<and>
         (\<forall>tour0. valid_tour tour0 points \<longrightarrow>
            (\<exists>tour1 l0 l1. twoOpt tour0 points maxIterations = Inr tour1 \<and>
               mset tour1 = mset tour0 \<and>
               calculateTourLength tour0 points = Inr l0 \<and>
               calculateTourLength tour1 points = Inr l1 \<and>
               path_length (map ((!) points) tour1) \<le> path_length (map ((!) points) tour0) \<and>
               (1 - 1 / 2 ^ 53) ^ (length tour0 - 1) * l1
                 \<le> (1 + 1 / 2 ^ 53) ^ (length tour0 - 1)
                     * (l0 + 2 * real (length tour0 - 1) * 2 powi (- 1075))))"
proof (intro conjI impI allI)
  assume "startIndex < length points"
  from nearestNeighbor_returns[OF this]
  show "\<exists>tour0. nearestNeighbor points startIndex = Inr tour0 \<and> valid_tour tour0 points" by blast
next
  fix tour0 assume v0: "valid_tour tour0 points"
  from twoOpt_inv[OF v0, of maxIterations] obtain tour1 where
    t1: "twoOpt tour0 points maxIterations = Inr tour1" "valid_tour tour1 points"
      "mset tour1 = mset tour0"
      "path_length (map ((!) points) tour1) \<le> path_length (map ((!) points) tour0)" by blast
  define m where "m = length tour0 - 1"
  define r :: real where "r = 1 + 1 / 2 ^ 53"
  define s :: real where "s = 1 - 1 / 2 ^ 53"
  define h :: real where "h = 2 powi (- 1075)"
  define S0 where "S0 = path_length (map ((!) points) tour0)"
  define S1 where "S1 = path_length (map ((!) points) tour1)"
  define l0 where "l0 = length_from 0 (map ((!) points) tour0)"
  define l1 where "l1 = length_from 0 (map ((!) points) tour1)"
  have len: "length tour1 = length tour0" using t1(3) by (metis size_mset)
  have c0: "calculateTourLength tour0 points = Inr l0"
    unfolding l0_def using v0 by (rule calculateTourLength_valid)
  have c1: "calculateTourLength tour1 points = Inr l1"
    unfolding l1_def using t1(2) by (rule calculateTourLength_valid)
  have up: "l1 \<le> r ^ m * (S1 + real m * h)"
    using length_from_upper[of 0 "map ((!) points) tour1"]
    by (simp add: l1_def r_def m_def S1_def h_def len)
  have lo: "s ^ m * S0 - real m * h \<le> l0"
    using length_from_lower[of 0 "map ((!) points) tour0"]
    by (simp add: l0_def s_def m_def S0_def h_def)
  have s0: "0 \<le> s ^ m" and s1: "s ^ m \<le> 1" and r0: "0 \<le> r ^ m" and h0: "0 \<le> real m * h"
    by (simp_all add: s_def r_def h_def power_le_one)
  have S: "S1 \<le> S0" using t1(4) by (simp add: S0_def S1_def)
  have "s ^ m * l1 \<le> s ^ m * (r ^ m * (S1 + real m * h))" using up s0 by (rule mult_left_mono)
  also have "\<dots> = r ^ m * (s ^ m * S1 + s ^ m * (real m * h))" by (simp add: algebra_simps)
  also have "\<dots> \<le> r ^ m * (l0 + real m * h + real m * h)"
  proof (intro mult_left_mono r0)
    have "s ^ m * S1 \<le> s ^ m * S0" using S s0 by (rule mult_left_mono)
    moreover have "s ^ m * (real m * h) \<le> 1 * (real m * h)" using s1 h0 by (rule mult_right_mono)
    ultimately show "s ^ m * S1 + s ^ m * (real m * h) \<le> l0 + real m * h + real m * h"
      using lo by linarith
  qed
  finally have b: "s ^ m * l1 \<le> r ^ m * (l0 + 2 * real m * h)" by (simp add: algebra_simps)
  show "\<exists>tour1 l0 l1. twoOpt tour0 points maxIterations = Inr tour1 \<and>
      mset tour1 = mset tour0 \<and>
      calculateTourLength tour0 points = Inr l0 \<and>
      calculateTourLength tour1 points = Inr l1 \<and>
      path_length (map ((!) points) tour1) \<le> path_length (map ((!) points) tour0) \<and>
      (1 - 1 / 2 ^ 53) ^ (length tour0 - 1) * l1
        \<le> (1 + 1 / 2 ^ 53) ^ (length tour0 - 1)
            * (l0 + 2 * real (length tour0 - 1) * 2 powi (- 1075))"
    by (intro exI conjI) (rule t1(1) t1(3) c0 c1 t1(4) b[unfolded s_def r_def m_def h_def])+
qed

theorem twoOpt_length_up_to_rounding_witness:
  "(\<exists>tour0. nearestNeighbor tie_points 0 = Inr tour0 \<and> valid_tour tour0 tie_points) \<and>
   (\<exists>tour1 l0 l1. twoOpt [0, 1, 2, 3] tie_points 1000 = Inr tour1 \<and>
      mset tour1 = mset [0, 1, 2, 3] \<and>
      calculateTourLength [0, 1, 2, 3] tie_points = Inr l0 \<and>
      calculateTourLength tour1 tie_points = Inr l1 \<and>
      path_length (map ((!) tie_points) tour1) \<le> path_length (map ((!) tie_points) [0, 1, 2, 3]) \<and>
      (1 - 1 / 2 ^ 53) ^ (length [0::nat, 1, 2, 3] - 1) * l1
        \<le> (1 + 1 / 2 ^ 53) ^ (length [0::nat, 1, 2, 3] - 1)
            * (l0 + 2 * real (length [0::nat, 1, 2, 3] - 1) * 2 powi (- 1075)))"
proof -
  have l: "4 \<le> length tie_points" by (simp add: tie_points_def)
  have r: "in_range tie_points" by (simp add: in_range_def tie_points_def)
  have s: "(0::nat) < length tie_points" by (simp add: tie_points_def)
  have v: "valid_tour [0, 1, 2, 3] tie_points" by (simp add: valid_tour_def tie_points_def)
  note T = twoOpt_length_up_to_rounding[OF l r, of 0 1000]
  have A: "\<exists>tour0. nearestNeighbor tie_points 0 = Inr tour0 \<and> valid_tour tour0 tie_points"
    using T[THEN conjunct1, rule_format, OF s] .
  have B: "\<exists>tour1 l0 l1. twoOpt [0, 1, 2, 3] tie_points 1000 = Inr tour1 \<and>
      mset tour1 = mset [0, 1, 2, 3] \<and>
      calculateTourLength [0, 1, 2, 3] tie_points = Inr l0 \<and>
      calculateTourLength tour1 tie_points = Inr l1 \<and>
      path_length (map ((!) tie_points) tour1) \<le> path_length (map ((!) tie_points) [0, 1, 2, 3]) \<and>
      (1 - 1 / 2 ^ 53) ^ (length [0::nat, 1, 2, 3] - 1) * l1
        \<le> (1 + 1 / 2 ^ 53) ^ (length [0::nat, 1, 2, 3] - 1)
            * (l0 + 2 * real (length [0::nat, 1, 2, 3] - 1) * 2 powi (- 1075))"
    by (rule T[THEN conjunct2, rule_format, OF v])
  show ?thesis using A B by (rule conjI)
qed


lemma fl_roots:
  "fl (sqrt 8) = rt8" "fl (sqrt 50) = rt50" "fl (sqrt 98) = rt98" "fl (sqrt 162) = rt162"
  "fl (sqrt 392) = rt392"
  unfolding rt8_def rt50_def rt98_def rt162_def rt392_def
  using fl_sqrt_eqI[of 1 6369051672525773 8] fl_sqrt_eqI[of 2 7961314590657216 50]
    fl_sqrt_eqI[of 3 5572920213460051 98] fl_sqrt_eqI[of 3 7165183131591494 162]
    fl_sqrt_eqI[of 4 5572920213460051 392]
  by (simp_all add: power2_eq_square)

lemma tie_distances:
  "distance \<lparr>px = 7, py = 7\<rparr> \<lparr>px = 9, py = 9\<rparr> = rt8"
  "distance \<lparr>px = 7, py = 7\<rparr> \<lparr>px = 14, py = 14\<rparr> = rt98"
  "distance \<lparr>px = 7, py = 7\<rparr> \<lparr>px = 0, py = 0\<rparr> = rt98"
  "distance \<lparr>px = 9, py = 9\<rparr> \<lparr>px = 14, py = 14\<rparr> = rt50"
  "distance \<lparr>px = 9, py = 9\<rparr> \<lparr>px = 0, py = 0\<rparr> = rt162"
  "distance \<lparr>px = 14, py = 14\<rparr> \<lparr>px = 0, py = 0\<rparr> = rt392"
  "distance \<lparr>px = 14, py = 14\<rparr> \<lparr>px = 9, py = 9\<rparr> = rt50"
  unfolding distance_def Let_def
  by (simp_all add: fl_numeral fl_neg_numeral fl_roots)

text \<open>The sums of the two pairs of edges, and the two tour lengths.\<close>

lemma tie_sums:
  "fl (rt8 + rt392) = 6369051672525773 / 2 ^ 48"
  "fl (rt98 + rt162) = 6369051672525772 / 2 ^ 48"
  "fl rt8 = rt8"
  "fl rt98 = rt98"
  "fl (fl (rt8 + rt50) + rt392) = 8359380320190076 / 2 ^ 48"
  "fl (fl (rt98 + rt50) + rt162) = 8359380320190077 / 2 ^ 48"
proof -
  show "fl (rt8 + rt392) = 6369051672525773 / 2 ^ 48"
    unfolding rt8_def rt392_def
    using fl_eq_roundI[of 4 "6369051672525773 / 2 ^ 51 + 5572920213460051 / 2 ^ 48"
        6369051672525773]
    by (simp add: round_even_def)
  show "fl (rt98 + rt162) = 6369051672525772 / 2 ^ 48"
    unfolding rt98_def rt162_def
    using fl_eq_roundI[of 4 "5572920213460051 / 2 ^ 49 + 7165183131591494 / 2 ^ 49"
        6369051672525772]
    by (simp add: round_even_def)
  show "fl rt8 = rt8"
    unfolding rt8_def using fl_exact[of 6369051672525773 "- 51"] by simp
  show "fl rt98 = rt98"
    unfolding rt98_def using fl_exact[of 5572920213460051 "- 49"] by simp
  have a: "fl (rt8 + rt50) = 5572920213460051 / 2 ^ 49"
    unfolding rt8_def rt50_def
    using fl_eq_roundI[of 3 "6369051672525773 / 2 ^ 51 + 7961314590657216 / 2 ^ 50"
        5572920213460051]
    by (simp add: round_even_def)
  show "fl (fl (rt8 + rt50) + rt392) = 8359380320190076 / 2 ^ 48"
    unfolding a unfolding rt392_def
    using fl_eq_roundI[of 4 "5572920213460051 / 2 ^ 49 + 5572920213460051 / 2 ^ 48"
        8359380320190076]
    by (simp add: round_even_def)
  have b: "fl (rt98 + rt50) = 4776788754394330 / 2 ^ 48"
    unfolding rt98_def rt50_def
    using fl_eq_roundI[of 4 "5572920213460051 / 2 ^ 49 + 7961314590657216 / 2 ^ 50"
        4776788754394330]
    by (simp add: round_even_def)
  show "fl (fl (rt98 + rt50) + rt162) = 8359380320190077 / 2 ^ 48"
    unfolding b unfolding rt162_def
    using fl_eq_roundI[of 4 "4776788754394330 / 2 ^ 48 + 7165183131591494 / 2 ^ 49"
        8359380320190077]
    by (simp add: round_even_def)
qed


lemma tie_nth:
  "tie_points ! 0 = \<lparr>px = 7, py = 7\<rparr>" "tie_points ! Suc 0 = \<lparr>px = 9, py = 9\<rparr>"
  "tie_points ! 2 = \<lparr>px = 14, py = 14\<rparr>" "tie_points ! 3 = \<lparr>px = 0, py = 0\<rparr>"
  "length tie_points = 4"
  by (simp_all add: tie_points_def)

lemma upt_4: "[0..<4] = [0, Suc 0, 2, 3]"
  by (simp add: upt_rec)

lemma tie_nearestNeighbor: "nearestNeighbor tie_points 0 = Inr [0, 1, 2, 3]"
proof -
  have n1: "find_nearest tie_points [0] 0 = Inr (Some (Suc 0, rt8))"
    by (simp add: find_nearest_def nearest_brute_def tie_nth upt_4 point_at_def closer_def
        tie_distances rt8_def rt50_def rt98_def rt162_def rt392_def)
  have n2: "find_nearest tie_points [0, Suc 0] (Suc 0)
      = Inr (Some (2, rt50))"
    by (simp add: find_nearest_def nearest_brute_def tie_nth upt_4 point_at_def closer_def
        tie_distances rt8_def rt50_def rt98_def rt162_def rt392_def)
  have n3: "find_nearest tie_points [0, Suc 0, 2] 2 = Inr (Some (3, rt392))"
    by (simp add: find_nearest_def nearest_brute_def tie_nth upt_4 point_at_def closer_def
        tie_distances rt8_def rt50_def rt98_def rt162_def rt392_def)
  have c: "card {0, Suc 0, 2, 3::nat} = 4" by simp
  have l4: "nn_loop tie_points [0, Suc 0, 2, 3] 3 = Inr [0, Suc 0, 2, 3]"
    by (subst nn_loop.simps) (simp add: tie_nth)
  have l3: "nn_loop tie_points [0, Suc 0, 2] 2 = Inr [0, Suc 0, 2, 3]"
    by (subst nn_loop.simps) (simp add: tie_nth n3 l4)
  have l2: "nn_loop tie_points [0, Suc 0] (Suc 0) = Inr [0, Suc 0, 2, 3]"
    by (subst nn_loop.simps) (simp add: tie_nth n2 l3)
  have l1: "nn_loop tie_points [0] 0 = Inr [0, Suc 0, 2, 3]"
    by (subst nn_loop.simps) (simp add: tie_nth n1 l2)
  have v: "valid_tour [0, Suc 0, 2, 3] tie_points" by (simp add: valid_tour_def tie_nth)
  show ?thesis
    using l1 calculateTourLength_valid[OF v] by (simp add: nearestNeighbor_def tie_nth)
qed

lemma tie_lengths:
  "calculateTourLength [0, 1, 2, 3] tie_points = Inr (8359380320190076 / 2 ^ 48)"
  "calculateTourLength [0, 2, 1, 3] tie_points = Inr (8359380320190077 / 2 ^ 48)"
proof -
  have v: "valid_tour [0, Suc 0, 2, 3] tie_points" "valid_tour [0, 2, Suc 0, 3] tie_points"
    by (simp_all add: valid_tour_def tie_nth)
  show "calculateTourLength [0, 1, 2, 3] tie_points = Inr (8359380320190076 / 2 ^ 48)"
    using calculateTourLength_valid[OF v(1)] by (simp add: tie_nth tie_distances tie_sums)
  show "calculateTourLength [0, 2, 1, 3] tie_points = Inr (8359380320190077 / 2 ^ 48)"
    using calculateTourLength_valid[OF v(2)] by (simp add: tie_nth tie_distances tie_sums)
qed

lemma tie_twoOpt: "twoOpt [0, 1, 2, 3] tie_points 1000 = Inr [0, 2, 1, 3]"
proof -
  have pairs: "twoOpt_pairs 4 = [(Suc 0, 2)]"
    by (simp add: twoOpt_pairs_def upt_rec)
  have pass1: "fold_err (twoOpt_swap tie_points) (twoOpt_pairs 4) ([0, Suc 0, 2, 3], False)
      = Inr ([0, 2, Suc 0, 3], True)"
    using tie_lengths(2)
    by (simp add: pairs twoOpt_swap_def Let_def point_at_def tie_nth tie_distances tie_sums)
  have pass2: "fold_err (twoOpt_swap tie_points) (twoOpt_pairs 4) ([0, 2, Suc 0, 3], False)
      = Inr ([0, 2, Suc 0, 3], False)"
    by (simp add: pairs twoOpt_swap_def Let_def point_at_def tie_nth tie_distances tie_sums)
  have loop: "twoOpt_loop tie_points 4 (Suc (Suc k)) [0, Suc 0, 2, 3] = Inr [0, 2, Suc 0, 3]" for k
    by (simp add: pass1 pass2)
  have L: "twoOpt_loop tie_points 4 1000 [0, Suc 0, 2, 3] = Inr [0, 2, Suc 0, 3]"
    using loop[of 998] by simp
  have e: "twoOpt [0, 1, 2, 3] tie_points 1000
      = twoOpt_loop tie_points (length [0::nat, 1, 2, 3]) 1000 [0, 1, 2, 3]"
    using tie_lengths(1) by (simp add: twoOpt_def)
  have l: "length [0::nat, 1, 2, 3] = 4" by simp
  show ?thesis unfolding e l using L by simp
qed


text \<open>
  Claim C7 as stated fails in double precision. For the points (7,7), (9,9), (14,14), (0,0)
  and the start index 0 the nearest-neighbour tour is \<open>[0, 1, 2, 3]\<close>. The two pairs of
  edges of its one 2-opt swap have the same exact length, 16 times the square root of 2; as
  the program computes them \<open>newDist\<close> is one unit in the last place below \<open>currentDist\<close>,
  the swap is taken, and the result is \<open>[0, 2, 1, 3]\<close>. \<open>calculateTourLength\<close> gives
  29.698484809834994 for the tour before 2-opt and 29.698484809834998 for the tour after it.
\<close>

theorem twoOpt_tie_longer:
  "nearestNeighbor tie_points 0 = Inr [0, 1, 2, 3] \<and>
   twoOpt [0, 1, 2, 3] tie_points 1000 = Inr [0, 2, 1, 3] \<and>
   calculateTourLength [0, 1, 2, 3] tie_points = Inr (8359380320190076 / 2 ^ 48) \<and>
   calculateTourLength [0, 2, 1, 3] tie_points = Inr (8359380320190077 / 2 ^ 48) \<and>
   (8359380320190076 / 2 ^ 48 :: real) < 8359380320190077 / 2 ^ 48"
  using tie_nearestNeighbor tie_twoOpt tie_lengths by simp


text \<open>
  Claim C4 at an input of more than 1000 points, where the grid index is used. The point
  (0,0) is farther than the largest search radius from all other points, so that the search
  finds nothing, the loop of \<open>nearestNeighbor\<close> ends at its safety check, and the tour
  returned holds the start index alone: one of 1001 indices.
\<close>

theorem nearestNeighbor_far_corner:
  "length far_corner_points = 1001 \<and>
   nearestNeighbor far_corner_points 0 = Inr [0] \<and>
   solveTSP far_corner_points 0 False 1000 = Inr [0] \<and>
   \<not> is_permutation [0] (length far_corner_points)"
proof -
  have "(1::nat) \<in> {0..<1001}" by simp
  then have "set [0::nat] \<noteq> {0..<1001}" by (metis empty_iff insert_iff list.set(1) list.simps(15) zero_neq_one)
  then have "\<not> is_permutation [0] (length far_corner_points)"
    by (simp add: is_permutation_def far_corner_length)
  then show ?thesis
    by (simp add: far_corner_length far_corner_tour solveTSP_def)
qed

subsection \<open>Colour quantizer (kMeans.js)\<close>

lemma rgbDistance_self: "rgbDistance c c = 0"
  by (simp add: rgbDistance_def)

lemma rgbDistance_nonneg: "0 \<le> rgbDistance a b"
  by (simp add: rgbDistance_def Let_def)

lemma rgbDistance_not_neg: "\<not> rgbDistance a b < 0"
  by (simp add: not_less rgbDistance_nonneg)

lemma same_samples_replicate:
  "\<forall>s\<in>set samples. s = c \<Longrightarrow> samples = replicate (length samples) c"
  by (induction samples) auto

lemma minCentroidDistance_same:
  "0 < m \<Longrightarrow> minCentroidDistance (replicate m c) c = 0"
proof -
  assume "0 < m"
  then obtain m' where m: "m = Suc m'" by (cases m) auto
  have "fold (\<lambda>centroid minDist. min minDist (rgbDistance c centroid)) (replicate j c) 0 = 0" for j
    by (induction j) (simp_all add: rgbDistance_self)
  then show ?thesis by (simp add: minCentroidDistance_def m rgbDistance_self)
qed

lemma sum_zeros: "fold (\<lambda>d s. s + d) (replicate n (0::real)) 0 = 0"
  by (induction n) simp_all

lemma plusplus_step_same:
  assumes "0 < n" "0 < m"
  shows "plusplus_step (replicate n c) rand (replicate m c, d) = (replicate (Suc m) c, d + 1)"
proof -
  obtain n' where n: "n = Suc n'" using assms(1) by (cases n) auto
  have dist: "map (\<lambda>sample. minCentroidDistance (replicate m c) sample
        * minCentroidDistance (replicate m c) sample) (replicate n c) = replicate n 0"
    by (simp add: minCentroidDistance_same[OF assms(2)])
  have r: "roulette (replicate n 0) (rand d * 0) 0 = Some 0" by (simp add: n)
  have a: "replicate m c @ [replicate n c ! 0] = replicate (Suc m) c"
    using assms(1) by (simp add: replicate_append_same)
  show ?thesis
    by (simp only: plusplus_step_def Let_def fst_conv snd_conv dist sum_zeros r option.case a)
qed

lemma plusplus_fold_same:
  assumes "0 < n" "0 < m"
  shows "fold (\<lambda>i. plusplus_step (replicate n c) rand) is (replicate m c, d)
     = (replicate (m + length is) c, d + length is)"
  using assms(2)
proof (induction "is" arbitrary: m d)
  case Nil
  then show ?case by simp
next
  case (Cons i "is")
  have "0 < Suc m" by simp
  from Cons.IH[OF this, of "d + 1"] show ?case
    using plusplus_step_same[OF assms(1) Cons.prems, of c rand d] by simp
qed

lemma kMeansPlusPlus_same:
  assumes "0 < n" "1 \<le> k" "0 \<le> rand d" "rand d < 1"
  shows "kMeansPlusPlus (replicate n c) k rand d = (replicate k c, d + k)"
proof -
  have "rand d * real n < real n" using assms(1,4) by simp
  then have "\<lfloor>rand d * real n\<rfloor> < int n" by (simp add: floor_less_iff)
  then have idx: "nat \<lfloor>rand d * real n\<rfloor> < n" using assms(1) by linarith
  have "fold (\<lambda>i. plusplus_step (replicate n c) rand) [1..<k] (replicate 1 c, d + 1)
     = (replicate (1 + length [1..<k]) c, d + 1 + length [1..<k])"
    by (rule plusplus_fold_same[OF assms(1)]) simp
  then show ?thesis using idx assms(2) by (simp add: kMeansPlusPlus_def Let_def)
qed

lemma nearestCluster_first:
  "nearestCluster (c # rest) c = 0"
proof -
  have keep: "fold (\<lambda>i (minDist, nearest).
                  let d = rgbDistance c ((c # rest) ! i)
                  in if (case minDist of None \<Rightarrow> True | Some m \<Rightarrow> d < m) then (Some d, i)
                     else (minDist, nearest)) is (Some 0, 0) = (Some 0, 0)" for "is"
    by (induction "is") (simp_all add: Let_def rgbDistance_not_neg)
  have "[0..<length (c # rest)] = 0 # [1..<Suc (length rest)]" by (simp add: upt_rec)
  then show ?thesis
    unfolding nearestCluster_def by (simp add: rgbDistance_self keep)
qed

lemma assignToClusters_same:
  "assignToClusters (replicate n c) (c # rest) = replicate n c # replicate (length rest) []"
proof -
  have f0: "filter (\<lambda>sample. nearestCluster (c # rest) sample = 0) (replicate n c) = replicate n c"
    by (simp add: nearestCluster_first)
  have fi: "map (\<lambda>i. filter (\<lambda>sample. nearestCluster (c # rest) sample = i) (replicate n c))
      [1..<Suc (length rest)] = replicate (length rest) []"
  proof -
    have "\<forall>i\<in>set [1..<Suc (length rest)].
        filter (\<lambda>sample. nearestCluster (c # rest) sample = i) (replicate n c) = []"
    proof
      fix i assume "i \<in> set [1..<Suc (length rest)]"
      then have "1 \<le> i" by (simp only: set_upt atLeastLessThan_iff)
      then have "nearestCluster (c # rest) c \<noteq> i" by (simp add: nearestCluster_first)
      then show "filter (\<lambda>sample. nearestCluster (c # rest) sample = i) (replicate n c) = []"
        by simp
    qed
    then have "map (\<lambda>i. filter (\<lambda>sample. nearestCluster (c # rest) sample = i) (replicate n c))
      [1..<Suc (length rest)] = map (\<lambda>i. []) [1..<Suc (length rest)]"
      by (intro map_cong) auto
    also have "\<dots> = replicate (length [1..<Suc (length rest)]) []"
      by (rule map_replicate_const)
    also have "length [1..<Suc (length rest)] = length rest" by (simp only: length_upt)
    finally show ?thesis .
  qed
  have "[0..<length (c # rest)] = 0 # [1..<Suc (length rest)]" by (simp add: upt_rec)
  then show ?thesis unfolding assignToClusters_def using f0 fi by simp
qed


lemma sum_same:
  "fold (\<lambda>c acc. \<lparr>cr = cr acc + cr c, cg = cg acc + cg c, cb = cb acc + cb c\<rparr>)
     (replicate n c) a
   = \<lparr>cr = cr a + real n * cr c, cg = cg a + real n * cg c, cb = cb a + real n * cb c\<rparr>"
  by (induction n arbitrary: a) (simp_all add: algebra_simps)

lemma centroid_of_same:
  assumes "0 < n"
  shows "centroid_of rand (replicate n c) (acc, d) = (acc @ [c], d)"
proof -
  have s: "fold (\<lambda>c acc. \<lparr>cr = cr acc + cr c, cg = cg acc + cg c, cb = cb acc + cb c\<rparr>)
     (replicate n c) \<lparr>cr = 0, cg = 0, cb = 0\<rparr>
     = \<lparr>cr = real n * cr c, cg = real n * cg c, cb = real n * cb c\<rparr>"
    by (simp only: sum_same) simp
  have l: "length (replicate n c) \<noteq> 0" using assms by simp
  show ?thesis
    unfolding centroid_of_def Let_def fst_conv snd_conv s using assms by simp
qed

lemma centroid_of_empties:
  "\<exists>rs. fold (centroid_of rand) (replicate m []) (acc, d) = (acc @ rs, d + 3 * m) \<and>
     length rs = m"
proof (induction m arbitrary: acc d)
  case 0
  then show ?case by simp
next
  case (Suc m)
  let ?x = "\<lparr>cr = real_of_int \<lfloor>rand d * 256\<rfloor>, cg = real_of_int \<lfloor>rand (d + 1) * 256\<rfloor>,
      cb = real_of_int \<lfloor>rand (d + 2) * 256\<rfloor>\<rparr>"
  from Suc[of "acc @ [?x]" "d + 3"] obtain rs where
    rs: "fold (centroid_of rand) (replicate m []) (acc @ [?x], d + 3)
      = ((acc @ [?x]) @ rs, d + 3 + 3 * m)" "length rs = m" by blast
  have "fold (centroid_of rand) (replicate (Suc m) []) (acc, d) = (acc @ (?x # rs), d + 3 * Suc m)"
    using rs(1) by (simp add: centroid_of_def Let_def)
  then show ?case using rs(2) by (metis length_Cons)
qed

lemma calculateCentroids_same:
  assumes "0 < n"
  shows "\<exists>rs d'. calculateCentroids (replicate n c # replicate m []) rand d = (c # rs, d') \<and>
     length rs = m"
proof -
  from centroid_of_empties[of rand m "[c]" d] obtain rs where
    "fold (centroid_of rand) (replicate m []) ([c], d) = ([c] @ rs, d + 3 * m)" "length rs = m"
    by blast
  then show ?thesis
    using centroid_of_same[OF assms, of rand c "[]" d] by (simp add: calculateCentroids_def)
qed

lemma kmeans_iterate_same:
  assumes "0 < n"
  shows "\<exists>rest' it'. kmeans_iterate (replicate n c) rand left it (c # rest) d = (c # rest', it')
     \<and> length rest' = length rest"
proof (induction left arbitrary: it rest d)
  case 0
  then show ?case by simp
next
  case (Suc left)
  from calculateCentroids_same[OF assms, of c "length rest" rand d] obtain rs d' where
    cc: "calculateCentroids (replicate n c # replicate (length rest) []) rand d = (c # rs, d')"
      "length rs = length rest" by blast
  show ?case
  proof (cases "checkConvergence (c # rest) (c # rs) 1")
    case True
    then have "kmeans_iterate (replicate n c) rand (Suc left) it (c # rest) d = (c # rs, it + 1)"
      by (simp add: assignToClusters_same cc(1))
    then show ?thesis using cc(2) by blast
  next
    case False
    then have "kmeans_iterate (replicate n c) rand (Suc left) it (c # rest) d
        = kmeans_iterate (replicate n c) rand left (it + 1) (c # rs) d'"
      by (simp add: assignToClusters_same cc(1))
    then show ?thesis using Suc[of "it + 1" rs d'] cc(2) by auto
  qed
qed

lemma kmeans_iterate_single:
  assumes "0 < n"
  shows "kmeans_iterate (replicate n c) rand (Suc left) 0 [c] d = ([c], 1)"
proof -
  have "calculateCentroids [replicate n c] rand d = ([c], d)"
    using centroid_of_same[OF assms, of rand c "[]" d] by (simp add: calculateCentroids_def)
  moreover have "assignToClusters (replicate n c) [c] = [replicate n c]"
    using assignToClusters_same[of n c "[]"] by simp
  moreover have "checkConvergence [c] [c] 1"
    by (simp add: checkConvergence_def rgbDistance_self)
  ultimately show ?thesis by simp
qed

lemma js_round_int: "js_round (real_of_int z) = z"
  unfolding js_round_def by linarith

lemma clampRgb_byte: "clampRgb (byte_color r g b) = byte_color r g b"
proof -
  have ch: "max 0 (min 255 (real_of_int (js_round (real (unat w))))) = real (unat w)"
    for w :: "8 word"
  proof -
    have "unat w < 256" using unsigned_less[of w, where 'a = nat] by simp
    then have le: "real (unat w) \<le> 255" by linarith
    have "js_round (real (unat w)) = int (unat w)"
      using js_round_int[of "int (unat w)"] by (simp only: of_int_of_nat_eq)
    then have "real_of_int (js_round (real (unat w))) = real (unat w)"
      by (simp only: of_int_of_nat_eq)
    moreover have "0 \<le> real (unat w)" by (rule of_nat_0_le_iff)
    moreover have "\<And>x::real. 0 \<le> x \<Longrightarrow> x \<le> 255 \<Longrightarrow> max 0 (min 255 x) = x" by simp
    ultimately show ?thesis using le by metis
  qed
  show ?thesis unfolding clampRgb_def byte_color_def color.simps by (simp only: ch)
qed

lemma sample_is_byte_color:
  "s \<in> set (extractColorSamples img sampleRate) \<Longrightarrow> \<exists>r g b. s = byte_color r g b"
  by (auto simp: extractColorSamples_def byte_color_def Let_def)


lemma flat_image_samples3:
  "a \<noteq> 0 \<Longrightarrow> extractColorSamples (flat_image 3 r g b a) 1 = replicate 3 (byte_color r g b)"
proof -
  assume a: "a \<noteq> 0"
  have u: "[0..<12] = [0, 1, 2, 3, 4, 5, 6, 7, 8, 9, 10, 11]" by (simp add: upt_rec)
  have d: "img_data (flat_image 3 r g b a) = [r, g, b, a, r, g, b, a, r, g, b, a]"
    by (simp add: flat_image_def numeral_3_eq_3)
  have s: "nat (max 1 \<lfloor>1::real\<rfloor>) = 1" by simp
  have "extractColorSamples (flat_image 3 r g b a) 1
      = [byte_color r g b, byte_color r g b, byte_color r g b]"
    unfolding extractColorSamples_def Let_def d s using a by (simp add: u byte_color_def)
  then show ?thesis by (simp add: numeral_3_eq_3)
qed

lemma flat_image_samples1:
  "a \<noteq> 0 \<Longrightarrow> extractColorSamples (flat_image (Suc 0) r g b a) 1 = [byte_color r g b]"
proof -
  assume a: "a \<noteq> 0"
  have u: "[0..<4] = [0, 1, 2, 3]" by (simp add: upt_rec)
  have d: "img_data (flat_image (Suc 0) r g b a) = [r, g, b, a]"
    by (simp add: flat_image_def)
  have s: "nat (max 1 \<lfloor>1::real\<rfloor>) = 1" by simp
  show ?thesis
    unfolding extractColorSamples_def Let_def d s using a by (simp add: u byte_color_def)
qed


text \<open>
  What the code does on a flat image. Let every sampled (non-transparent) pixel of the image
  have the colour \<open>c\<close>, let \<open>n > 0\<close> be the number of samples and \<open>1 \<le> k\<close>, and let the
  random source return values in \<open>[0, 1)\<close>. When \<open>n \<le> k\<close> the result is the \<open>n\<close> samples
  after zero iterations. When \<open>k < n\<close> the clustering runs: the palette has \<open>k\<close> entries and
  its first entry is \<open>c\<close>; for \<open>k = 1\<close> the palette is \<open>[c]\<close>, after one iteration if one is
  allowed.
\<close>

lemma findDominantColors_flat:
  assumes same: "\<forall>s\<in>set (extractColorSamples img sampleRate). s = c"
    and n: "n = length (extractColorSamples img sampleRate)" "0 < n"
    and k: "1 \<le> k"
    and rand: "\<forall>i. 0 \<le> rand i \<and> rand i < 1"
  shows "(n \<le> k \<longrightarrow>
            findDominantColors img k maxIterations sampleRate rand = Inr (replicate n c, 0)) \<and>
         (k < n \<longrightarrow>
            (\<exists>palette iteration.
               findDominantColors img k maxIterations sampleRate rand = Inr (palette, iteration) \<and>
               length palette = k \<and> palette ! 0 = c \<and>
               (k = 1 \<longrightarrow> palette = [c]) \<and>
               (k = 1 \<and> 1 \<le> maxIterations \<longrightarrow> iteration = 1)))"
proof (intro conjI impI)
  have s: "extractColorSamples img sampleRate = replicate n c"
    using same_samples_replicate[OF same] n(1) by simp
  {
    assume "n \<le> k"
    then show "findDominantColors img k maxIterations sampleRate rand = Inr (replicate n c, 0)"
      using n(2) by (simp add: findDominantColors_def s)
  }
  assume kn: "k < n"
  have "c \<in> set (extractColorSamples img sampleRate)" using s n(2) by simp
  then obtain r g b where c: "c = byte_color r g b" using sample_is_byte_color by blast
  have cl: "clampRgb c = c" unfolding c by (rule clampRgb_byte)
  have pp: "kMeansPlusPlus (replicate n c) k rand 0 = (replicate k c, 0 + k)"
    using rand by (intro kMeansPlusPlus_same[OF n(2) k]) auto
  obtain k' where k': "k = Suc k'" using k by (cases k) auto
  have rk: "replicate k c = c # replicate k' c" by (simp add: k')
  from kmeans_iterate_same[OF n(2), of c rand maxIterations 0 "replicate k' c" k]
  obtain rest' it' where
    it: "kmeans_iterate (replicate n c) rand maxIterations 0 (c # replicate k' c) k
      = (c # rest', it')" "length rest' = k'" by auto
  have res: "findDominantColors img k maxIterations sampleRate rand
      = Inr (c # map clampRgb rest', it')"
    using n(2) kn by (simp add: findDominantColors_def s pp rk it(1) cl)
  have one: "k = 1 \<and> 1 \<le> maxIterations \<longrightarrow> it' = 1"
  proof
    assume a: "k = 1 \<and> 1 \<le> maxIterations"
    then obtain left where l: "maxIterations = Suc left" by (cases maxIterations) auto
    from a have "k' = 0" using k' by simp
    then show "it' = 1" using it(1) kmeans_iterate_single[OF n(2), of c rand left k] l by simp
  qed
  have "k = 1 \<longrightarrow> c # map clampRgb rest' = [c]" using it(2) k' by auto
  then show "\<exists>palette iteration.
      findDominantColors img k maxIterations sampleRate rand = Inr (palette, iteration) \<and>
      length palette = k \<and> palette ! 0 = c \<and> (k = 1 \<longrightarrow> palette = [c]) \<and>
      (k = 1 \<and> 1 \<le> maxIterations \<longrightarrow> iteration = 1)"
    using res it(2) k' one by simp
qed



lemma findDominantColors_one_pixel:
  "findDominantColors (flat_image 1 10 20 30 255) 2 50 1 rand = Inr ([byte_color 10 20 30], 0)"
proof -
  have s1: "extractColorSamples (flat_image (Suc 0) 10 20 30 255) 1 = [byte_color 10 20 30]"
    by (rule flat_image_samples1) simp
  show ?thesis by (simp add: findDominantColors_def s1)
qed

text \<open>
  Claim C3 at a flat image of three pixels. The early exit of \<open>findDominantColors\<close> is
  commented \<open>fewer unique colors than requested\<close>, but it compares the number of samples
  with \<open>numColors\<close>, not the number of distinct colours. A flat image of three opaque pixels
  of colour \<open>(10, 20, 30)\<close> has one distinct colour and three samples: with \<open>k = 2\<close> the
  early exit is not taken and the clustering runs. All samples fall into the first cluster,
  the empty second cluster is reseeded with a random colour, and with a random source that
  always returns \<open>0\<close> the result is the palette \<open>[(10, 20, 30), (0, 0, 0)]\<close> after two
  iterations: the second colour is not the colour of the image, and the iteration count is
  not zero.
\<close>

theorem findDominantColors_flat_not_identical:
  "findDominantColors (flat_image 3 10 20 30 255) 2 50 1 (\<lambda>i. 0)
     = Inr ([byte_color 10 20 30, \<lparr>cr = 0, cg = 0, cb = 0\<rparr>], 2)"
proof -
  let ?c = "byte_color 10 20 30"
  let ?z = "\<lparr>cr = 0, cg = 0, cb = 0\<rparr>"
  have s3: "extractColorSamples (flat_image 3 10 20 30 255) 1 = replicate 3 ?c"
    by (rule flat_image_samples3) simp
  have pp: "kMeansPlusPlus (replicate 3 ?c) 2 (\<lambda>i. 0) 0 = (replicate 2 ?c, 0 + 2)"
    by (rule kMeansPlusPlus_same) simp_all
  have r2: "replicate 2 ?c = [?c, ?c]" by (simp add: eval_nat_numeral)
  have as: "assignToClusters (replicate 3 ?c) [?c, x] = [replicate 3 ?c, []]" for x
    using assignToClusters_same[of 3 ?c "[x]"] by simp
  have cc: "calculateCentroids [replicate 3 ?c, []] (\<lambda>i. 0) d = ([?c, ?z], d + 3)" for d
    using centroid_of_same[of 3 "\<lambda>i. 0" ?c "[]" d]
    by (simp add: calculateCentroids_def) (simp add: centroid_of_def)
  have far: "\<not> checkConvergence [?c, ?c] [?c, ?z] 1"
  proof -
    have "1 < sqrt 1400" by (intro real_less_rsqrt) simp
    then have "rgbDistance ?c ?z > 1" by (simp add: rgbDistance_def byte_color_def)
    then show ?thesis by (simp add: checkConvergence_def upt_rec)
  qed
  have near: "checkConvergence [?c, ?z] [?c, ?z] 1"
    by (simp add: checkConvergence_def upt_rec rgbDistance_self)
  have step1: "kmeans_iterate (replicate 3 ?c) (\<lambda>i. 0) (Suc (Suc m)) 0 [?c, ?c] d = ([?c, ?z], 2)"
    for m d
    by (simp add: as cc far near)
  have it: "kmeans_iterate (replicate 3 ?c) (\<lambda>i. 0) 50 0 [?c, ?c] d = ([?c, ?z], 2)" for d
    using step1[of 48 d] by simp
  have cz: "clampRgb ?z = ?z" by (simp add: clampRgb_def js_round_def)
  show ?thesis
    by (simp add: findDominantColors_def s3 pp r2 it clampRgb_byte cz)
qed
subsection \<open>G-code generator in dot mode (gcodeGenerator.js)\<close>

lemma upt12: "[0..<12] = [0, 1, 2, 3, 4, 5, 6, 7, 8, 9, 10, 11]" by (simp add: upt_rec)

lemma row1_data: "img_data (row_image 12 (\<lambda>x. x = 11)) =
  [255,255,255,0, 255,255,255,0, 255,255,255,0, 255,255,255,0, 255,255,255,0, 255,255,255,0,
   255,255,255,0, 255,255,255,0, 255,255,255,0, 255,255,255,0, 255,255,255,0, 255,255,255,255]"
  by (simp add: row_image_def upt12)

lemma extract1: "extractPixelCoordinates (row_image 12 (\<lambda>x. x = 11)) = [(11, 0)]"
  unfolding extractPixelCoordinates_def Let_def row1_data
  by (simp add: row_image_def upt12)


lemma row2_data: "img_data (row_image 12 (\<lambda>x. x < 11)) =
  [255,255,255,255, 255,255,255,255, 255,255,255,255, 255,255,255,255, 255,255,255,255,
   255,255,255,255, 255,255,255,255, 255,255,255,255, 255,255,255,255, 255,255,255,255,
   255,255,255,255, 255,255,255,0]"
  by (simp add: row_image_def upt12)

lemma extract2: "extractPixelCoordinates (row_image 12 (\<lambda>x. x < 11)) =
  [(0, 0), (1, 0), (2, 0), (3, 0), (4, 0), (5, 0), (6, 0), (7, 0), (8, 0), (9, 0), (10, 0)]"
  unfolding extractPixelCoordinates_def Let_def row2_data
  by (simp add: row_image_def upt12)

lemma spacing100: "nat (max 1 \<lfloor>sqrt (10000 / 100)\<rfloor>) = 10"
proof -
  have "sqrt (10000 / 100) = sqrt (10\<^sup>2)" by simp
  also have "\<dots> = 10" by (simp del: power2_eq_square)
  finally show ?thesis by simp
qed

lemma downsample1: "downsamplePixels [(11, 0)] w h 100 = [(11, 0)]"
  unfolding downsamplePixels_def Let_def spacing100 by simp

lemma downsample2:
  "downsamplePixels
     [(0, 0), (1, 0), (2, 0), (3, 0), (4, 0), (5, 0), (6, 0), (7, 0), (8, 0), (9, 0), (10, 0)]
     w h 100 = [(0, 0), (10, 0)]"
  unfolding downsamplePixels_def Let_def spacing100 by simp

lemma upt11: "[0..<11] = [0, 1, 2, 3, 4, 5, 6, 7, 8, 9, 10]" by (simp add: upt_rec)

lemma closest2:
  "closestPixelIndex
     [(0, 0), (1, 0), (2, 0), (3, 0), (4, 0), (5, 0), (6, 0), (7, 0), (8, 0), (9, 0), (10, 0)]
     (11, 0) = 10"
  unfolding closestPixelIndex_def Let_def by (simp add: upt11)

lemma tsp_out_of_range:
  "solveTSP (map pixel_point [(0, 0), (10, 0)]) 10 optimize maxIterations = Inl TypeError"
  by (simp add: solveTSP_def nearestNeighbor_def nn_loop.simps find_nearest_def nearest_brute_def
      point_at_def upt_rec)


lemma addDotUsage_returns:
  "\<exists>needs t. addDotUsage tr diameter thickness = Inr (needs, t)"
proof -
  have "0 \<le> pi * (diameter * diameter)" by (rule mult_nonneg_nonneg) simp_all
  moreover have "pi * (diameter / 2) * (diameter / 2) = pi * (diameter * diameter) / 4" by simp
  ultimately have "\<not> pi * (diameter / 2) * (diameter / 2) < 0" by linarith
  then show ?thesis
    unfolding addDotUsage_def addUsage_def needsRefill_def Let_def by simp
qed

lemma paintSingleDot_returns:
  assumes "0 < imageWidth" "0 < imageHeight" "0 < canvasWidthMm" "0 < canvasHeightMm"
  shows "\<exists>lines' st'.
     paintSingleDot pixel imageWidth imageHeight cfg a canvasWidthMm canvasHeightMm rand
       minDot maxDot moveSpeed dwellTime (lines, st) = Inr (lines', st') \<and>
     gs_position st' = Some pixel"
proof -
  obtain physical where p: "scaleToPhysical (real (fst pixel)) (real (snd pixel)) (real imageWidth)
      (real imageHeight) canvasWidthMm canvasHeightMm = Inr physical"
    using assms by (simp add: scaleToPhysical_def Let_def)
  obtain needs t where u: "addDotUsage (gs_tracker st)
      (minDot + rand (gs_drawn st) * (maxDot - minDot)) (1 / 10) = Inr (needs, t)"
    using addDotUsage_returns by blast
  show ?thesis
    unfolding paintSingleDot_def Let_def by (simp add: p u)
qed

lemma first_layer_returns:
  assumes "gs_position st = None" "dotDensity (cfg_pointillism cfg) = 100"
    "0 < canvasWidthMm" "0 < canvasHeightMm"
  shows "\<exists>lines st'.
     generateLayerGcode (two_layers ! 0) 0 cfg a canvasWidthMm canvasHeightMm rand st
       = Inr (lines, st') \<and> gs_position st' = Some (11, 0)"
proof -
  have tsp: "solveTSP (map pixel_point [(11, 0)]) 0 optimize 1000 = Inr [0]" for optimize
    by (simp add: solveTSP_def nearestNeighbor_def)
  obtain lines' st' where d: "paintSingleDot (11, 0) 12 1 cfg a canvasWidthMm canvasHeightMm rand
      (minDotSize (cfg_pointillism cfg)) (maxDotSize (cfg_pointillism cfg))
      (rb_moveSpeed (cfg_robot cfg)) (1 / 10)
      ([Comment ''Painting dots'', Comment ''Optimizing dot order using TSP...'',
        Comment ''Tour optimized''], st) = Inr (lines', st')"
    and pos: "gs_position st' = Some (11, 0)"
    using paintSingleDot_returns[of 12 1 canvasWidthMm canvasHeightMm "(11, 0)" cfg a rand] assms(3,4)
    by force
  have w: "img_width (row_image 12 opaque) = 12" "img_height (row_image 12 opaque) = 1" for opaque
    by (simp_all add: row_image_def)
  have "generatePointillismGcode [(11, 0)] 12 1 cfg a canvasWidthMm canvasHeightMm rand st
      = Inr (lines', st')"
    unfolding generatePointillismGcode_def Let_def
    using d assms(1,2) downsample1[of 12 1] tsp[of True] by simp
  then show ?thesis
    unfolding generateLayerGcode_def Let_def two_layers_def using pos
    by (simp add: extract1 w)
qed

lemma second_layer_throws:
  assumes "gs_position st = Some (11, 0)" "dotDensity (cfg_pointillism cfg) = 100"
  shows "generateLayerGcode (two_layers ! 1) 1 cfg a canvasWidthMm canvasHeightMm rand st
     = Inl TypeError"
proof -
  have w: "img_width (row_image 12 opaque) = 12" "img_height (row_image 12 opaque) = 1" for opaque
    by (simp_all add: row_image_def)
  have "generatePointillismGcode
      [(0, 0), (1, 0), (2, 0), (3, 0), (4, 0), (5, 0), (6, 0), (7, 0), (8, 0), (9, 0), (10, 0)]
      12 1 cfg a canvasWidthMm canvasHeightMm rand st = Inl TypeError"
    unfolding generatePointillismGcode_def Let_def
    using assms downsample2[of 12 1] closest2 tsp_out_of_range[of True 1000] by simp
  then show ?thesis
    unfolding generateLayerGcode_def Let_def two_layers_def
    by (simp add: extract2 w)
qed



lemma count_cmd_append: "count_cmd c (xs @ ys) = count_cmd c xs + count_cmd c ys"
  by (simp add: count_cmd_def)

lemma count_cmd_Nil: "count_cmd c [] = 0"
  by (simp add: count_cmd_def)

lemma count_cmd_Cons: "count_cmd c (x # xs) = (if x = c then 1 else 0) + count_cmd c xs"
  by (simp add: count_cmd_def)

lemma refill_counts:
  "count_cmd M3 (generateRefillSequence p cfg a) = 0"
  "count_cmd M5 (generateRefillSequence p cfg a) = 0"
  "count_cmd G28 (generateRefillSequence p cfg a) = 0"
  by (simp_all add: count_cmd_def generateRefillSequence_def Let_def)

lemma color_change_counts:
  "count_cmd M3 (generateColorChangeSequence cfg a) = 0"
  "count_cmd M5 (generateColorChangeSequence cfg a) = 0"
  "count_cmd G28 (generateColorChangeSequence cfg a) = 0"
  by (simp_all add: count_cmd_def generateColorChangeSequence_def Let_def)

lemma paintDot_counts:
  "count_cmd M3 (paintDot X Y Z d s) = 1"
  "count_cmd M5 (paintDot X Y Z d s) = 1"
  "count_cmd G28 (paintDot X Y Z d s) = 0"
  by (simp_all add: count_cmd_def paintDot_def)

lemma paintSingleDot_counts:
  assumes "paintSingleDot pixel iw ih cfg a cw ch rand mn mx ms dw (lines, st) = Inr (lines', st')"
  shows "count_cmd M3 lines' = count_cmd M3 lines + 1 \<and>
     count_cmd M5 lines' = count_cmd M5 lines + 1 \<and>
     count_cmd G28 lines' = count_cmd G28 lines"
proof -
  obtain physical where p: "scaleToPhysical (real (fst pixel)) (real (snd pixel)) (real iw)
      (real ih) cw ch = Inr physical"
    using assms unfolding paintSingleDot_def Let_def
    by (cases "scaleToPhysical (real (fst pixel)) (real (snd pixel)) (real iw) (real ih) cw ch")
      auto
  obtain needs t where u: "addDotUsage (gs_tracker st)
      (mn + rand (gs_drawn st) * (mx - mn)) (1 / 10) = Inr (needs, t)"
    using addDotUsage_returns by blast
  let ?c = "cartesianToTrilateration (px physical) (py physical) a"
  have l: "lines' = (if needs then lines @ [Comment ''Paint low - refill needed'']
        @ generateRefillSequence ?c cfg a else lines) @ paintDot (tX ?c) (tY ?c) (tZ ?c) dw ms"
    using assms unfolding paintSingleDot_def Let_def by (auto simp: p u)
  show ?thesis
    unfolding l
    by (cases needs) (simp_all add: count_cmd_append count_cmd_Cons count_cmd_Nil refill_counts
        paintDot_counts)
qed

text \<open>A loop of dots: every step that returns adds one dot.\<close>

lemma dots_loop_counts:
  assumes "\<And>x lines st lines' st'. f x (lines, st) = Inr (lines', st') \<Longrightarrow>
      count_cmd M3 lines' = count_cmd M3 lines + 1 \<and>
      count_cmd M5 lines' = count_cmd M5 lines + 1 \<and>
      count_cmd G28 lines' = count_cmd G28 lines"
    and "fold_err f xs (lines, st) = Inr (lines', st')"
  shows "count_cmd M3 lines' = count_cmd M3 lines + length xs \<and>
     count_cmd M5 lines' = count_cmd M5 lines + length xs \<and>
     count_cmd G28 lines' = count_cmd G28 lines"
  using assms(2)
proof (induction xs arbitrary: lines st)
  case Nil
  then show ?case by simp
next
  case (Cons x xs)
  then obtain l1 s1 where s: "f x (lines, st) = Inr (l1, s1)"
    by (cases "f x (lines, st)") auto
  with Cons.prems have "fold_err f xs (l1, s1) = Inr (lines', st')" by simp
  from Cons.IH[OF this] assms(1)[OF s] show ?case by simp
qed


lemma nearestNeighbor_out_of_range:
  assumes "2 \<le> length points" "length points \<le> 1000" "\<not> startIndex < length points"
  shows "nearestNeighbor points startIndex = Inl TypeError"
proof -
  have u: "[0..<length points] = 0 # [Suc 0..<length points]"
    using assms(1) by (intro upt_conv_Cons) linarith
  have "nearest_brute points [startIndex] startIndex = Inl TypeError"
    unfolding nearest_brute_def u using assms by (simp add: point_at_def)
  then have "find_nearest points [startIndex] startIndex = Inl TypeError"
    using assms(2) by (simp add: find_nearest_def)
  then have "nn_loop points [startIndex] startIndex = Inl TypeError"
    using assms(1) by (subst nn_loop.simps) simp
  then show ?thesis using assms(1) by (simp add: nearestNeighbor_long)
qed

lemma solveTSP_length:
  assumes "solveTSP points startIndex optimize maxIterations = Inr tour"
    and "length points \<le> 1000"
  shows "length tour = length points"
proof (cases "startIndex < length points")
  case True
  from solveTSP_small_permutation[OF True assms(2), of optimize maxIterations] assms(1)
  have "is_permutation tour (length points)" by auto
  then have "distinct tour" "set tour = {0..<length points}" by (simp_all add: is_permutation_def)
  then show ?thesis using distinct_card[of tour] by simp
next
  case False
  consider "length points = 0" | "length points = 1" | "2 \<le> length points" by linarith
  then show ?thesis
  proof cases
    case 1
    then show ?thesis using assms(1) by (auto simp: solveTSP_def nearestNeighbor_def)
  next
    case 2
    then show ?thesis using assms(1) by (auto simp: solveTSP_def nearestNeighbor_def)
  next
    case 3
    from nearestNeighbor_out_of_range[OF 3 assms(2) False] assms(1)
    show ?thesis by (simp add: solveTSP_def)
  qed
qed

lemma generatePointillismGcode_counts:
  assumes "generatePointillismGcode pixels iw ih cfg a cw ch rand st = Inr (lines, st')"
    and "length (downsamplePixels pixels iw ih (dotDensity (cfg_pointillism cfg))) \<le> 1000
       \<or> 10000 < length (downsamplePixels pixels iw ih (dotDensity (cfg_pointillism cfg)))"
  shows "count_cmd M3 lines = length (downsamplePixels pixels iw ih (dotDensity (cfg_pointillism cfg)))
     \<and> count_cmd M5 lines = length (downsamplePixels pixels iw ih (dotDensity (cfg_pointillism cfg)))
     \<and> count_cmd G28 lines = 0"
proof -
  let ?s = "downsamplePixels pixels iw ih (dotDensity (cfg_pointillism cfg))"
  let ?mn = "minDotSize (cfg_pointillism cfg)"
  let ?mx = "maxDotSize (cfg_pointillism cfg)"
  let ?ms = "rb_moveSpeed (cfg_robot cfg)"
  show ?thesis
  proof (cases "10000 < length ?s")
    case True
    let ?f = "\<lambda>pixel. paintSingleDot pixel iw ih cfg a cw ch rand ?mn ?mx ?ms (1 / 10)"
    let ?l0 = "[Comment ''Painting dots''] @
        [Comment ''Using grid order (too many dots for TSP optimization)'']"
    have f0: "fold_err ?f ?s (?l0, st) = Inr (lines, st')"
      using assms(1) True unfolding generatePointillismGcode_def Let_def by simp
    have step: "\<And>x l s l' s'. ?f x (l, s) = Inr (l', s') \<Longrightarrow>
        count_cmd M3 l' = count_cmd M3 l + 1 \<and> count_cmd M5 l' = count_cmd M5 l + 1 \<and>
        count_cmd G28 l' = count_cmd G28 l"
      by (rule paintSingleDot_counts)
    have "count_cmd M3 lines = count_cmd M3 ?l0 + length ?s \<and>
        count_cmd M5 lines = count_cmd M5 ?l0 + length ?s \<and>
        count_cmd G28 lines = count_cmd G28 ?l0"
      by (rule dots_loop_counts[of ?f, OF _ f0]) (rule step)
    then show ?thesis by (simp add: count_cmd_def)
  next
    case False
    then have le: "length ?s \<le> 1000" using assms(2) by simp
    let ?start = "case gs_position st of None \<Rightarrow> 0
        | Some cur \<Rightarrow> if length pixels > 0 then closestPixelIndex pixels cur else 0"
    let ?f = "\<lambda>pixelIndex ls. if pixelIndex < length ?s
        then paintSingleDot (?s ! pixelIndex) iw ih cfg a cw ch rand ?mn ?mx ?ms (1 / 10) ls
        else Inl TypeError"
    let ?l0 = "[Comment ''Painting dots''] @
        [Comment ''Optimizing dot order using TSP...'', Comment ''Tour optimized'']"
    obtain tour where t: "solveTSP (map pixel_point ?s) ?start (length ?s < 500) 1000 = Inr tour"
      using assms(1) False unfolding generatePointillismGcode_def Let_def
      by (cases "solveTSP (map pixel_point ?s) ?start (length ?s < 500) 1000") auto
    have f: "fold_err ?f tour (?l0, st) = Inr (lines, st')"
      using assms(1) False unfolding generatePointillismGcode_def Let_def by (simp add: t)
    have len: "length tour = length ?s" using solveTSP_length[OF t] le by simp
    have step: "\<And>x l s l' s'. ?f x (l, s) = Inr (l', s') \<Longrightarrow>
        count_cmd M3 l' = count_cmd M3 l + 1 \<and> count_cmd M5 l' = count_cmd M5 l + 1 \<and>
        count_cmd G28 l' = count_cmd G28 l"
    proof -
      fix x l s l' s'
      assume "?f x (l, s) = Inr (l', s')"
      then have "paintSingleDot (?s ! x) iw ih cfg a cw ch rand ?mn ?mx ?ms (1 / 10) (l, s)
          = Inr (l', s')" by (simp split: if_splits)
      then show "count_cmd M3 l' = count_cmd M3 l + 1 \<and> count_cmd M5 l' = count_cmd M5 l + 1 \<and>
          count_cmd G28 l' = count_cmd G28 l" by (rule paintSingleDot_counts)
    qed
    have "count_cmd M3 lines = count_cmd M3 ?l0 + length tour \<and>
        count_cmd M5 lines = count_cmd M5 ?l0 + length tour \<and>
        count_cmd G28 lines = count_cmd G28 ?l0"
      by (rule dots_loop_counts[of ?f, OF _ f]) (rule step)
    then show ?thesis by (simp add: count_cmd_def len)
  qed
qed


lemma generateLayerGcode_counts:
  assumes "generateLayerGcode l i cfg a cw ch rand st = Inr (lines, st')"
    and "length (layer_samples cfg l) \<le> 1000 \<or> 10000 < length (layer_samples cfg l)"
  shows "count_cmd M3 lines = length (layer_samples cfg l) \<and>
     count_cmd M5 lines = length (layer_samples cfg l) \<and>
     count_cmd G28 lines = 0"
proof -
  let ?img = "ly_imageData l"
  let ?g = "generatePointillismGcode (extractPixelCoordinates ?img) (img_width ?img)
      (img_height ?img) cfg a cw ch rand st"
  obtain dots where d: "?g = Inr (dots, st')"
    and l: "lines = ([Comment ''=== COLOR LAYER ==='', Comment ''Color'', Comment ''Pixels'']
        @ (if i > 0 then generateColorChangeSequence cfg a else [])) @ dots"
    using assms(1) unfolding generateLayerGcode_def Let_def by (cases ?g) auto
  from generatePointillismGcode_counts[OF d] assms(2)
  have "count_cmd M3 dots = length (layer_samples cfg l) \<and>
      count_cmd M5 dots = length (layer_samples cfg l) \<and> count_cmd G28 dots = 0"
    by (simp add: layer_samples_def)
  then show ?thesis
    unfolding l
    by (cases "i > 0")
      (simp_all add: count_cmd_append count_cmd_Cons count_cmd_Nil color_change_counts)
qed

lemma layers_loop_counts:
  assumes "fold_err (\<lambda>i ls.
         case generateLayerGcode (colorLayers ! i) i cfg a cw ch rand (snd ls) of
           Inl e \<Rightarrow> Inl e
         | Inr (layerGcode, st') \<Rightarrow> Inr (fst ls @ layerGcode @ [Blank], st'))
       is (lines, st) = Inr (lines', st')"
    and "\<forall>i\<in>set is. length (layer_samples cfg (colorLayers ! i)) \<le> 1000
           \<or> 10000 < length (layer_samples cfg (colorLayers ! i))"
  shows "count_cmd M3 lines' =
       count_cmd M3 lines + (\<Sum>i\<leftarrow>is. length (layer_samples cfg (colorLayers ! i))) \<and>
     count_cmd M5 lines' =
       count_cmd M5 lines + (\<Sum>i\<leftarrow>is. length (layer_samples cfg (colorLayers ! i))) \<and>
     count_cmd G28 lines' = count_cmd G28 lines"
  using assms
proof (induction "is" arbitrary: lines st)
  case Nil
  then show ?case by simp
next
  case (Cons i "is")
  let ?g = "generateLayerGcode (colorLayers ! i) i cfg a cw ch rand st"
  obtain layerGcode s1 where g: "?g = Inr (layerGcode, s1)"
    using Cons.prems(1) by (cases ?g) auto
  have c: "count_cmd M3 layerGcode = length (layer_samples cfg (colorLayers ! i)) \<and>
      count_cmd M5 layerGcode = length (layer_samples cfg (colorLayers ! i)) \<and>
      count_cmd G28 layerGcode = 0"
    using generateLayerGcode_counts[OF g] Cons.prems(2) by simp
  have "fold_err (\<lambda>i ls.
         case generateLayerGcode (colorLayers ! i) i cfg a cw ch rand (snd ls) of
           Inl e \<Rightarrow> Inl e
         | Inr (layerGcode, st') \<Rightarrow> Inr (fst ls @ layerGcode @ [Blank], st'))
       is (lines @ layerGcode @ [Blank], s1) = Inr (lines', st')"
    using Cons.prems(1) g by simp
  from Cons.IH[OF this] Cons.prems(2) c show ?case
    by (simp add: count_cmd_append count_cmd_Cons count_cmd_Nil)
qed

text \<open>
  Whenever the generation of a picture returns a command stream, and no layer has between
  1001 and 10000 sample points (where the tour comes from the grid index), the stream has
  one \<open>M3\<close> for every sample point of every layer, two more \<open>M5\<close> than \<open>M3\<close> (those of
  the preamble and of the termination) and \<open>G28\<close> exactly twice.
\<close>

lemma generate_counts:
  assumes "generate cfg colorLayers rand position = Inr (lines, position')"
    and "\<forall>l\<in>set colorLayers. length (layer_samples cfg l) \<le> 1000
           \<or> 10000 < length (layer_samples cfg l)"
  shows "count_cmd M3 lines = (\<Sum>l\<leftarrow>colorLayers. length (layer_samples cfg l)) \<and>
     count_cmd M5 lines = (\<Sum>l\<leftarrow>colorLayers. length (layer_samples cfg l)) + 2 \<and>
     count_cmd G28 lines = 2"
proof -
  let ?a = "createAnchorConfig (cfg_canvas cfg)"
  let ?cw = "cv_width (cfg_canvas cfg) * 10"
  let ?ch = "cv_height (cfg_canvas cfg) * 10"
  obtain t where r: "reset new_tracker (rb_paintCapacity (cfg_robot cfg)) = Inr t"
    using assms(1) unfolding generate_def Let_def
    by (cases "reset new_tracker (rb_paintCapacity (cfg_robot cfg))") auto
  let ?st = "\<lparr>gs_position = position, gs_tracker = t, gs_drawn = 0\<rparr>"
  let ?g = "generateColorLayersGcode colorLayers cfg ?a ?cw ?ch rand ?st"
  have ne: "length colorLayers > 0"
    using assms(1) unfolding generate_def Let_def r by (auto split: if_splits)
  obtain layerGcode st where g: "?g = Inr (layerGcode, st)"
    and l: "lines = (generateHeader cfg @ [Blank]) @ layerGcode @ [Blank] @ generateFooter"
    using assms(1) ne unfolding generate_def Let_def r by (cases ?g) auto
  have idx: "\<forall>i\<in>set [0..<length colorLayers].
      length (layer_samples cfg (colorLayers ! i)) \<le> 1000
      \<or> 10000 < length (layer_samples cfg (colorLayers ! i))"
    using assms(2) by simp
  have s: "(\<Sum>i\<leftarrow>[0..<length colorLayers]. length (layer_samples cfg (colorLayers ! i)))
      = (\<Sum>l\<leftarrow>colorLayers. length (layer_samples cfg l))"
  proof -
    have "map (\<lambda>i. length (layer_samples cfg (colorLayers ! i))) [0..<length colorLayers]
        = map (\<lambda>l. length (layer_samples cfg l)) (map ((!) colorLayers) [0..<length colorLayers])"
      by simp
    then show ?thesis by (simp only: map_nth)
  qed
  from layers_loop_counts[OF g[unfolded generateColorLayersGcode_def] idx]
  have "count_cmd M3 layerGcode = (\<Sum>l\<leftarrow>colorLayers. length (layer_samples cfg l)) \<and>
      count_cmd M5 layerGcode = (\<Sum>l\<leftarrow>colorLayers. length (layer_samples cfg l)) \<and>
      count_cmd G28 layerGcode = 0"
    unfolding s by (simp add: count_cmd_Nil)
  then show ?thesis
    unfolding l
    by (simp add: count_cmd_append count_cmd_Cons count_cmd_Nil generateHeader_def
        generateFooter_def)
qed


lemma dots_loop_returns:
  assumes "0 < iw" "0 < ih" "0 < cw" "0 < ch" "\<forall>i\<in>set tour. i < length samples"
  shows "\<exists>lines' st'. fold_err (\<lambda>pixelIndex ls. if pixelIndex < length samples
        then paintSingleDot (samples ! pixelIndex) iw ih cfg a cw ch rand mn mx ms dw ls
        else Inl TypeError) tour (lines, st) = Inr (lines', st')"
  using assms(5)
proof (induction tour arbitrary: lines st)
  case Nil
  then show ?case by simp
next
  case (Cons i tour)
  from paintSingleDot_returns[OF assms(1-4), of "samples ! i" cfg a rand mn mx ms dw lines st]
  obtain l1 s1 where "paintSingleDot (samples ! i) iw ih cfg a cw ch rand mn mx ms dw (lines, st)
      = Inr (l1, s1)" by blast
  moreover from Cons.IH[of l1 s1] Cons.prems obtain lines' st' where
    "fold_err (\<lambda>pixelIndex ls. if pixelIndex < length samples
        then paintSingleDot (samples ! pixelIndex) iw ih cfg a cw ch rand mn mx ms dw ls
        else Inl TypeError) tour (l1, s1) = Inr (lines', st')" by auto
  ultimately show ?case using Cons.prems by simp
qed

text \<open>
  A new generator on a picture of one layer with at most 1000 sample points: the generation
  returns a command stream.
\<close>

lemma generate_one_layer_returns:
  assumes "0 < rb_paintCapacity (cfg_robot cfg)"
    and "0 < cv_width (cfg_canvas cfg)" "0 < cv_height (cfg_canvas cfg)"
    and "0 < img_width (ly_imageData l)" "0 < img_height (ly_imageData l)"
    and "length (layer_samples cfg l) \<le> 1000"
  shows "\<exists>lines position'. generate cfg [l] rand None = Inr (lines, position')"
proof -
  let ?a = "createAnchorConfig (cfg_canvas cfg)"
  let ?cw = "cv_width (cfg_canvas cfg) * 10"
  let ?ch = "cv_height (cfg_canvas cfg) * 10"
  let ?img = "ly_imageData l"
  let ?s = "layer_samples cfg l"
  let ?t = "new_tracker\<lparr>paintCapacity := rb_paintCapacity (cfg_robot cfg),
      remainingCapacity := rb_paintCapacity (cfg_robot cfg), consumedPaint := 0,
      refillCount := 0, usageHistory := []\<rparr>"
  let ?st = "\<lparr>gs_position = None, gs_tracker = ?t, gs_drawn = 0\<rparr>"
  have r: "reset new_tracker (rb_paintCapacity (cfg_robot cfg)) = Inr ?t"
    using assms(1) by (simp add: reset_def)
  have "\<exists>tour. solveTSP (map pixel_point ?s) 0 (length ?s < 500) 1000 = Inr tour \<and>
      (\<forall>i\<in>set tour. i < length ?s)"
  proof (cases "length ?s = 0")
    case True
    then show ?thesis by (simp add: solveTSP_def nearestNeighbor_def)
  next
    case False
    then have "0 < length (map pixel_point ?s)" "length (map pixel_point ?s) \<le> 1000"
      using assms(6) by simp_all
    from solveTSP_small_permutation[OF this, of "length ?s < 500" 1000]
    show ?thesis by (auto simp: is_permutation_def)
  qed
  then obtain tour where t: "solveTSP (map pixel_point ?s) 0 (length ?s < 500) 1000 = Inr tour"
    and v: "\<forall>i\<in>set tour. i < length ?s" by blast
  have pos: "0 < ?cw" "0 < ?ch" using assms(2,3) by simp_all
  from dots_loop_returns[OF assms(4,5) pos v, of cfg ?a rand]
  obtain dots st' where d: "fold_err (\<lambda>pixelIndex ls. if pixelIndex < length ?s
        then paintSingleDot (?s ! pixelIndex) (img_width ?img) (img_height ?img) cfg ?a ?cw ?ch rand
               (minDotSize (cfg_pointillism cfg)) (maxDotSize (cfg_pointillism cfg))
               (rb_moveSpeed (cfg_robot cfg)) (1 / 10) ls
        else Inl TypeError) tour
      ([Comment ''Painting dots''] @ [Comment ''Optimizing dot order using TSP...'',
         Comment ''Tour optimized''], ?st) = Inr (dots, st')" by blast
  have le: "\<not> 10000 < length ?s" using assms(6) by simp
  have p: "generatePointillismGcode (extractPixelCoordinates ?img) (img_width ?img)
      (img_height ?img) cfg ?a ?cw ?ch rand ?st = Inr (dots, st')"
    unfolding generatePointillismGcode_def Let_def layer_samples_def[symmetric]
    using le t d by simp
  have "\<exists>lines. generateColorLayersGcode [l] cfg ?a ?cw ?ch rand ?st = Inr (lines, st')"
    unfolding generateColorLayersGcode_def generateLayerGcode_def Let_def
    using p by simp
  then show ?thesis
    unfolding generate_def Let_def r by auto
qed


text \<open>
  Claim C8 at a picture of two colours. \<open>generatePointillismGcode\<close> looks for the pixel
  closest to the current position in \<open>pixels\<close>, the list of all opaque pixels of the
  layer, and passes its index to \<open>solveTSP\<close> as the start index into \<open>sampledPixels\<close>,
  the shorter list of the sample points. For the picture \<open>two_layers\<close> (12 by 1 pixels,
  density 100, so a grid spacing of 10) the first layer has the one sample point \<open>(11, 0)\<close>
  and is painted; the second layer has the two sample points \<open>(0, 0)\<close> and \<open>(10, 0)\<close>,
  the closest of its eleven pixels is the one with index 10, and \<open>nearestNeighbor\<close> reads
  \<open>points[10]\<close> of a list of two points: the generation throws a \<open>TypeError\<close> and no
  command stream is produced, for every random source.
\<close>

theorem generate_second_layer_throws:
  "map (\<lambda>l. downsamplePixels (extractPixelCoordinates (ly_imageData l)) 12 1 100) two_layers
     = [[(11, 0)], [(0, 0), (10, 0)]] \<and>
   generate dot_config two_layers rand None = Inl TypeError"
proof
  show "map (\<lambda>l. downsamplePixels (extractPixelCoordinates (ly_imageData l)) 12 1 100) two_layers
     = [[(11, 0)], [(0, 0), (10, 0)]]"
    using downsample1[of 12 1] downsample2[of 12 1]
    by (simp add: two_layers_def extract1 extract2)
next
  let ?a = "createAnchorConfig (cfg_canvas dot_config)"
  let ?t = "new_tracker\<lparr>paintCapacity := 400, remainingCapacity := 400, consumedPaint := 0,
      refillCount := 0, usageHistory := []\<rparr>"
  let ?st = "\<lparr>gs_position = None, gs_tracker = ?t, gs_drawn = 0\<rparr>"
  have r: "reset new_tracker (rb_paintCapacity (cfg_robot dot_config)) = Inr ?t"
    by (simp add: reset_def dot_config_def)
  have dens: "dotDensity (cfg_pointillism dot_config) = 100" by (simp add: dot_config_def)
  obtain lines st' where l1: "generateLayerGcode (two_layers ! 0) 0 dot_config ?a 2000 1500 rand ?st
      = Inr (lines, st')" and pos: "gs_position st' = Some (11, 0)"
    using first_layer_returns[of ?st dot_config 2000 1500 ?a rand] dens by auto
  have l2: "generateLayerGcode (two_layers ! 1) 1 dot_config ?a 2000 1500 rand st' = Inl TypeError"
    using second_layer_throws[OF pos dens] .
  have len: "length two_layers = 2" by (simp add: two_layers_def)
  have u2: "[0..<2] = [0, 1]" by (simp add: upt_rec)
  have "generateColorLayersGcode two_layers dot_config ?a 2000 1500 rand ?st = Inl TypeError"
    unfolding generateColorLayersGcode_def len u2 using l1 l2 by simp
  then show "generate dot_config two_layers rand None = Inl TypeError"
    unfolding generate_def Let_def r by (simp add: len dot_config_def)
qed


end
